theory Spec2Isabelle
  imports Main "HOL-Library.Sublist" "HOL-Library.Multiset" "HOL-Library.Char_ord"
    "HOL-Library.List_Lexorder"
begin

section \<open>Tab mover: the background script \<^verbatim>\<open>package/src/background/main.js\<close>\<close>

text \<open>
  The background script is event driven.  Every handler is modelled as a function from the
  extension's own state and from the answers of the host browser (the resolved values of the
  promises it awaits) to the new state and to the list of host calls that the handler issues,
  in the order in which it issues them.  A rejected promise is an error value.
\<close>

subsection \<open>JavaScript values used by the script\<close>

text \<open>
  \<^verbatim>\<open>xs[i]\<close> on an array: \<^verbatim>\<open>undefined\<close> (here \<open>None\<close>) outside \<open>0 .. length - 1\<close>.
\<close>

definition js_index :: "'a list \<Rightarrow> int \<Rightarrow> 'a option" where
  "js_index xs i = (if 0 \<le> i \<and> i < int (length xs) then Some (xs ! nat i) else None)"

text \<open>
  \<^verbatim>\<open>x > 0\<close> where \<^verbatim>\<open>x\<close> is a number or \<^verbatim>\<open>undefined\<close>: the comparison with
  \<^verbatim>\<open>undefined\<close> is false.
\<close>

definition js_positive :: "int option \<Rightarrow> bool" where
  "js_positive x = (case x of None \<Rightarrow> False | Some n \<Rightarrow> 0 < n)"

text \<open>
  A JavaScript \<^verbatim>\<open>Set\<close> keeps its elements in insertion order and holds each of them once.
  It is a list without duplicates: \<^verbatim>\<open>add\<close> appends an absent element and leaves a present
  one where it is, \<^verbatim>\<open>delete\<close> takes the element out, \<^verbatim>\<open>[...s]\<close> is the list itself.
\<close>

definition set_add :: "'a \<Rightarrow> 'a list \<Rightarrow> 'a list" where
  "set_add x s = (if x \<in> set s then s else s @ [x])"

definition set_delete :: "'a \<Rightarrow> 'a list \<Rightarrow> 'a list" where
  "set_delete x s = remove1 x s"

subsection \<open>Window recency tracker\<close>

text \<open>The host constant \<^verbatim>\<open>browser.windows.WINDOW_ID_NONE\<close>.\<close>

definition WINDOW_ID_NONE :: int where
  "WINDOW_ID_NONE = - 1"

datatype window_type = Normal | Popup | Panel | Devtools

text \<open>
  A request \<^verbatim>\<open>updateIconBadge(id)\<close>; the argument is \<^verbatim>\<open>undefined\<close> when it was read
  from an empty position of the set.
\<close>

type_synonym badge_request = "int option"

text \<open>
  \<^verbatim>\<open>onFocusChanged(id)\<close>.  The second argument is the answer of
  \<^verbatim>\<open>browser.windows.get(id)\<close>: the type of the window, or \<open>None\<close> when the promise is
  rejected (the rejection goes to \<^verbatim>\<open>console.error\<close>).  The result is the new
  \<^verbatim>\<open>lastFocusedWindow\<close> and the badge requests issued.
\<close>

definition onFocusChanged ::
  "int \<Rightarrow> window_type option \<Rightarrow> int list \<Rightarrow> int list \<times> badge_request list" where
  "onFocusChanged wid window lastFocusedWindow =
     (if wid = WINDOW_ID_NONE then (lastFocusedWindow, [])
      else case window of
        None \<Rightarrow> (lastFocusedWindow, [])
      | Some ty \<Rightarrow>
          if ty \<noteq> Normal then (lastFocusedWindow, [])
          else if 0 < wid then
            (let last = js_index lastFocusedWindow (int (length lastFocusedWindow) - 1)
             in if last \<noteq> Some wid
                then (set_add wid (set_delete wid lastFocusedWindow), [last])
                else (lastFocusedWindow, []))
          else (lastFocusedWindow, []))"

text \<open>\<^verbatim>\<open>onRemoved(id)\<close>: the badge request is issued before the deletion.\<close>

definition onRemoved :: "int \<Rightarrow> int list \<Rightarrow> int list \<times> badge_request list" where
  "onRemoved wid lastFocusedWindow =
     (set_delete wid lastFocusedWindow, [js_index lastFocusedWindow 0])"

text \<open>
  The start of the tracker: the set is filled from \<^verbatim>\<open>browser.windows.getAll()\<close>, and when
  it holds more than one window a badge request for its second entry is issued.
\<close>

definition seed :: "int list \<Rightarrow> int list \<times> badge_request list" where
  "seed window_ids =
     (let lastFocusedWindow = fold set_add window_ids []
      in (lastFocusedWindow,
          if 1 < length lastFocusedWindow then [js_index lastFocusedWindow 1] else []))"

text \<open>
  A sequence of focus events, each with the host's answer for its window, in the order in
  which the callbacks of the lookups run.
\<close>

fun focus_events :: "(int \<times> window_type option) list \<Rightarrow> int list \<Rightarrow> int list" where
  "focus_events [] s = s"
| "focus_events ((wid, window) # evs) s = focus_events evs (fst (onFocusChanged wid window s))"

text \<open>An event that the tracker acts on: a normal window with a positive id.\<close>

definition tracked_focus :: "int \<times> window_type option \<Rightarrow> bool" where
  "tracked_focus ev = (snd ev = Some Normal \<and> 0 < fst ev)"

subsection \<open>Tabs, host calls and host answers\<close>

text \<open>
  The fields of \<^verbatim>\<open>browser.tabs.Tab\<close> that the script reads.  \<open>tab_id\<close> is the
  field \<^verbatim>\<open>id\<close> and \<open>tab_index\<close> the field \<^verbatim>\<open>index\<close>.
\<close>

record tab =
  tab_id :: int
  windowId :: int
  tab_index :: int
  active :: bool
  highlighted :: bool
  incognito :: bool
  cookieStoreId :: string
  url :: string
  title :: string

text \<open>
  The closure that \<^verbatim>\<open>onMenuShown\<close> stores as \<^verbatim>\<open>onclick\<close> of a submenu entry:
  \<^verbatim>\<open>(info, tab) => moveTabs(tab, targetWindow.id)\<close> or
  \<^verbatim>\<open>(info, tab) => reopenTabs(tab, targetWindow.id)\<close>, with the window id it captured.
\<close>

datatype handler = MoveTabsTo int | ReopenTabsTo int

record menu_create =
  onclick :: handler
  parentId :: string
  item_title :: string

text \<open>
  The calls to the host that the modelled functions issue:
  \<^item> \<open>TabsQuery w\<close> is \<^verbatim>\<open>browser.tabs.query({highlighted: true, windowId: w})\<close>;
  \<^item> \<open>WindowsCreate t\<close> is \<^verbatim>\<open>browser.windows.create({tabId: t})\<close>;
  \<^item> \<open>TabsMove ids w i\<close> is \<^verbatim>\<open>browser.tabs.move(ids, {windowId: w, index: i})\<close>, with
    \<open>w = None\<close> when the property is not given;
  \<^item> \<open>TabsActivate t\<close> is \<^verbatim>\<open>browser.tabs.update(t, {active: true})\<close>;
  \<^item> \<open>TabsHighlight t\<close> is \<^verbatim>\<open>browser.tabs.update(t, {active: false, highlighted: true})\<close>;
  \<^item> \<open>TabsCreate u w a\<close> is \<^verbatim>\<open>browser.tabs.create({url: u, windowId: w, active: a})\<close>;
  \<^item> \<open>TabsRemove ids\<close> is \<^verbatim>\<open>browser.tabs.remove(ids)\<close>;
  \<^item> \<open>MenusCreate p\<close>, \<open>MenusUpdate id enabled\<close>, \<open>MenusRemove id\<close> and \<open>MenusRefresh\<close>
    are the calls of \<^verbatim>\<open>browser.menus\<close>.
\<close>

datatype call =
    TabsQuery int
  | WindowsCreate "int option"
  | TabsMove "int list" "int option" int
  | TabsActivate int
  | TabsHighlight int
  | TabsCreate string int bool
  | TabsRemove "int list"
  | MenusCreate menu_create
  | MenusUpdate string bool
  | MenusRemove int
  | MenusRefresh

text \<open>
  \<open>TypeError\<close>: the script reads a property of \<^verbatim>\<open>undefined\<close>, or a constructor of the
  platform throws.  \<open>Rejected\<close>: a promise of the host is rejected.
\<close>

datatype error = TypeError | Rejected

text \<open>
  What the host and the platform answer:
  \<^item> \<open>tabs_query w\<close>: the highlighted tabs of window \<open>w\<close>;
  \<^item> \<open>windows_create t\<close>: the id of the window created for tab \<open>t\<close>;
  \<^item> \<open>tabs_update t\<close>: whether the awaited \<^verbatim>\<open>update(t, {active: true})\<close> is fulfilled;
  \<^item> \<open>tabs_create i\<close>: the tab that the \<open>i\<close>-th call of \<^verbatim>\<open>browser.tabs.create\<close> makes;
  \<^item> \<open>url_protocol u\<close>: \<^verbatim>\<open>new URL(u).protocol\<close>, \<open>None\<close> when the constructor throws.
\<close>

record host =
  tabs_query :: "int \<Rightarrow> error + tab list"
  windows_create :: "int option \<Rightarrow> error + int"
  tabs_update :: "int \<Rightarrow> error + unit"
  tabs_create :: "nat \<Rightarrow> error + tab"
  url_protocol :: "string \<Rightarrow> string option"

text \<open>
  One execution of \<^verbatim>\<open>reopenTabs\<close>: the calls that its body issues, in order; for each
  \<^verbatim>\<open>async\<close> function that it starts without awaiting it, in order of start, the calls
  that this function issues (it starts none); and the error with which it ends, if any.
\<close>

record run =
  calls :: "call list"
  started :: "call list list"
  failure :: "error option"

text \<open>The settings that \<^verbatim>\<open>moveTabs\<close> reads.\<close>

record settings =
  switchToTabAfterMoving :: bool
  moveableContainers :: "string list"

subsection \<open>Tab relocation engine\<close>

text \<open>\<^verbatim>\<open>x < 1\<close> where \<^verbatim>\<open>x\<close> is a number or \<^verbatim>\<open>null\<close>: \<^verbatim>\<open>null\<close> converts to \<open>0\<close>.\<close>

definition js_lt1 :: "int option \<Rightarrow> bool" where
  "js_lt1 x = (case x of None \<Rightarrow> True | Some n \<Rightarrow> n < 1)"

text \<open>\<^verbatim>\<open>tabs.pop()\<close>: the last element (or \<^verbatim>\<open>undefined\<close>) and the array that is left.\<close>

definition js_pop :: "'a list \<Rightarrow> 'a option \<times> 'a list" where
  "js_pop xs = (if xs = [] then (None, []) else (Some (last xs), butlast xs))"

text \<open>
  \<^verbatim>\<open>moveToWindow(targetWindowId, tabs)\<close>: the calls it issues.  When the creation of the
  window is rejected the function ends there.
\<close>

definition moveToWindow :: "host \<Rightarrow> int option \<Rightarrow> int list \<Rightarrow> call list" where
  "moveToWindow h targetWindowId tabs =
     (if js_lt1 targetWindowId then
        (let (popped, rest) = js_pop tabs
         in case windows_create h popped of
              Inl e \<Rightarrow> [WindowsCreate popped]
            | Inr newWindow \<Rightarrow> [WindowsCreate popped, TabsMove rest (Some newWindow) (- 1)])
      else [TabsMove tabs targetWindowId (- 1)])"

text \<open>
  The selection of \<^verbatim>\<open>moveTabs\<close> and \<^verbatim>\<open>reopenTabs\<close>: the highlighted tabs of the
  window when the tab is highlighted, the tab alone otherwise.
\<close>

definition selection :: "host \<Rightarrow> tab \<Rightarrow> call list \<times> (error + tab list)" where
  "selection h t =
     (if highlighted t then ([TabsQuery (windowId t)], tabs_query h (windowId t))
      else ([], Inr [t]))"

text \<open>
  The object \<^verbatim>\<open>filteredTabs\<close> is an association list in the order in which its keys were
  inserted.  The keys are cookie store ids as the host issues them
  (\<^verbatim>\<open>firefox-default\<close>, \<^verbatim>\<open>firefox-private\<close>, \<^verbatim>\<open>firefox-container-N\<close>): none is an
  array index or the name of a property that objects inherit, so \<^verbatim>\<open>in\<close> tests the keys
  inserted and \<^verbatim>\<open>Object.keys\<close> lists them in insertion order.  \<open>push_bucket\<close> is the body
  of the reducer.
\<close>

definition push_bucket :: "(string \<times> int list) list \<Rightarrow> tab \<Rightarrow> (string \<times> int list) list" where
  "push_bucket obj t =
     (let obj' = (if cookieStoreId t \<in> fst ` set obj then obj else obj @ [(cookieStoreId t, [])])
      in map (\<lambda>(k, ids). if k = cookieStoreId t then (k, ids @ [tab_id t]) else (k, ids)) obj')"

text \<open>A cookie store id of the form that the host issues.\<close>

definition host_store_id :: "string \<Rightarrow> bool" where
  "host_store_id s = (take 8 s = ''firefox-'')"

text \<open>
  Lines 128 to 136: the keys, and the removal of the bucket \<^verbatim>\<open>firefox-default\<close> from the
  object and from the keys when there is more than one key and it is among them.
\<close>

definition containered_first ::
  "(string \<times> int list) list \<Rightarrow> (string \<times> int list) list \<times> string list" where
  "containered_first filteredTabs =
     (let cookieIDs = map fst filteredTabs
      in if 1 < length cookieIDs \<and> ''firefox-default'' \<in> set cookieIDs
         then (filter (\<lambda>(k, ids). k \<noteq> ''firefox-default'') filteredTabs,
               remove1 ''firefox-default'' cookieIDs)
         else (filteredTabs, cookieIDs))"

text \<open>
  The loop over \<^verbatim>\<open>cookieIDs\<close>: one \<^verbatim>\<open>moveToWindow\<close> is started, and not awaited, for
  each key.  Each key is a key of the object (lemma \<open>start_moves_lookup\<close>), so the lookup
  never yields \<^verbatim>\<open>undefined\<close>.
\<close>

definition start_moves ::
  "settings \<Rightarrow> host \<Rightarrow> int option \<Rightarrow> (string \<times> int list) list \<Rightarrow> string list \<Rightarrow> call list list" where
  "start_moves cfg h targetWindowId filteredTabs cookieIDs =
     map (\<lambda>cookieId.
            case map_of filteredTabs cookieId of
              None \<Rightarrow> []
            | Some tabs \<Rightarrow>
                moveToWindow h
                  (if cookieId \<in> set (moveableContainers cfg) then Some 0 else targetWindowId) tabs)
         cookieIDs"

text \<open>
  The condition of line 145,
  \<^verbatim>\<open>switchToActiveTab || switchToTabAfterMoving && activeTab && activeTab.id\<close>:
  \<^verbatim>\<open>&&\<close> binds tighter than \<^verbatim>\<open>||\<close>, a tab object is truthy, \<^verbatim>\<open>undefined\<close> and the
  number \<open>0\<close> are falsy.
\<close>

definition switch_wanted :: "settings \<Rightarrow> bool \<Rightarrow> tab option \<Rightarrow> bool" where
  "switch_wanted cfg switchToActiveTab activeTab =
     (switchToActiveTab \<or>
      (switchToTabAfterMoving cfg \<and> (case activeTab of None \<Rightarrow> False | Some a \<Rightarrow> tab_id a \<noteq> 0)))"

text \<open>
  One execution of \<^verbatim>\<open>moveTabs\<close>, in the order of its body: \<open>Issued c\<close> is a call that
  the body issues itself, \<open>Started cs\<close> is the start of a \<^verbatim>\<open>moveToWindow\<close> that is not
  awaited and that issues the calls \<open>cs\<close> (its first call at once, the later ones when the
  host has answered).  \<open>thrown\<close> is the error with which the function ends, if any.
\<close>

datatype step = Issued call | Started "call list"

record move_run =
  steps :: "step list"
  thrown :: "error option"

text \<open>
  \<^verbatim>\<open>moveTabs(tab, targetWindowId, switchToActiveTab)\<close>.  The reactivation of line 151 is
  awaited: when the host rejects it the function ends there, before the loop of lines 152
  to 156.
\<close>

definition moveTabs :: "settings \<Rightarrow> host \<Rightarrow> tab \<Rightarrow> int option \<Rightarrow> bool \<Rightarrow> move_run" where
  "moveTabs cfg h t targetWindowId switchToActiveTab =
     (case selection h t of
        (q, Inl e) \<Rightarrow> \<lparr>steps = map Issued q, thrown = Some e\<rparr>
      | (q, Inr selectedTabs) \<Rightarrow>
          (let activeTab = find active selectedTabs;
               filteredTabs = fold (\<lambda>x obj. push_bucket obj x) selectedTabs [];
               (filteredTabs', cookieIDs) = containered_first filteredTabs;
               moves = start_moves cfg h targetWindowId filteredTabs' cookieIDs;
               moved = map Issued q @ map Started moves
           in if switch_wanted cfg switchToActiveTab activeTab then
                (case activeTab of
                   None \<Rightarrow> \<lparr>steps = moved, thrown = Some TypeError\<rparr>
                 | Some a \<Rightarrow>
                     (case tabs_update h (tab_id a) of
                        Inl e \<Rightarrow>
                          \<lparr>steps = moved @ [Issued (TabsActivate (tab_id a))], thrown = Some e\<rparr>
                      | Inr u \<Rightarrow>
                          \<lparr>steps = moved @ Issued (TabsActivate (tab_id a)) #
                             map (\<lambda>x. Issued (TabsHighlight (tab_id x)))
                               (filter (\<lambda>x. tab_id x \<noteq> tab_id a) selectedTabs),
                           thrown = None\<rparr>))
              else \<lparr>steps = moved, thrown = None\<rparr>))"

definition ALLOWED_PROTOCOLS :: "string list" where
  "ALLOWED_PROTOCOLS = [''http:'', ''https:'', ''ftp:'']"

text \<open>
  Lines 174 to 180 of \<^verbatim>\<open>reopenTabs\<close>: when no tab of the filtered selection is active, the
  first one is made active (the assignment changes the object inside the array).
\<close>

definition designate_active :: "tab list \<Rightarrow> tab list" where
  "designate_active selectedTabs =
     (case find active selectedTabs of
        None \<Rightarrow> (case selectedTabs of [] \<Rightarrow> [] | x # xs \<Rightarrow> x\<lparr>active := True\<rparr> # xs)
      | Some a \<Rightarrow> selectedTabs)"

text \<open>
  \<^verbatim>\<open>Promise.all\<close> over the answers to the calls \<open>0 .. n - 1\<close>: the values when all
  promises are fulfilled, the first rejection otherwise.
\<close>

fun promise_all :: "(error + 'a) list \<Rightarrow> error + 'a list" where
  "promise_all [] = Inr []"
| "promise_all (Inl e # ps) = Inl e"
| "promise_all (Inr v # ps) = (case promise_all ps of Inl e \<Rightarrow> Inl e | Inr vs \<Rightarrow> Inr (v # vs))"

text \<open>
  The filter of line 168: \<^verbatim>\<open>ALLOWED_PROTOCOLS.has(new URL(selectedTab.url).protocol)\<close>.
\<close>

definition allowed :: "host \<Rightarrow> tab \<Rightarrow> bool" where
  "allowed h x =
     (case url_protocol h (url x) of None \<Rightarrow> False | Some p \<Rightarrow> p \<in> set ALLOWED_PROTOCOLS)"

text \<open>
  \<^verbatim>\<open>reopenTabs(tab, targetWindowId)\<close>.  A URL that the constructor refuses makes the
  callback of the filter throw.  All calls of \<^verbatim>\<open>browser.tabs.create\<close> are issued before
  their promises are awaited together.
\<close>

definition reopenTabs :: "host \<Rightarrow> tab \<Rightarrow> int \<Rightarrow> run" where
  "reopenTabs h t targetWindowId =
     (case selection h t of
        (q, Inl e) \<Rightarrow> \<lparr>calls = q, started = [], failure = Some e\<rparr>
      | (q, Inr highlightedTabs) \<Rightarrow>
          if \<exists>x \<in> set highlightedTabs. url_protocol h (url x) = None
          then \<lparr>calls = q, started = [], failure = Some TypeError\<rparr>
          else
            (let filtered = filter (allowed h) highlightedTabs
             in if length filtered = 0 then \<lparr>calls = q, started = [], failure = None\<rparr>
                else
                  (let selectedTabs = designate_active filtered;
                       creating = map (\<lambda>x. TabsCreate (url x) targetWindowId (active x)) selectedTabs
                   in case promise_all (map (tabs_create h) [0 ..< length selectedTabs]) of
                        Inl e \<Rightarrow> \<lparr>calls = q @ creating, started = [], failure = Some e\<rparr>
                      | Inr newTabs \<Rightarrow>
                          \<lparr>calls = q @ creating
                             @ map (\<lambda>x. TabsHighlight (tab_id x)) (filter (\<lambda>x. \<not> active x) newTabs)
                             @ [TabsRemove (map tab_id selectedTabs)],
                           started = [], failure = None\<rparr>)))"

subsection \<open>Notions used to state the properties of the relocation engine\<close>

text \<open>The distinct elements of a list, in the order of their first occurrence.\<close>

definition first_keys :: "'a list \<Rightarrow> 'a list" where
  "first_keys xs = rev (remdups (rev xs))"

text \<open>The ids of the tabs of a selection that live in one cookie store, in selection order.\<close>

definition bucket :: "tab list \<Rightarrow> string \<Rightarrow> int list" where
  "bucket sel k = map tab_id (filter (\<lambda>x. cookieStoreId x = k) sel)"

text \<open>The moves that an execution has started, in order of start.\<close>

fun tasks :: "step list \<Rightarrow> call list list" where
  "tasks [] = []"
| "tasks (Started cs # ss) = cs # tasks ss"
| "tasks (Issued c # ss) = tasks ss"

text \<open>The tabs that a call moves to another window.\<close>

fun moved_by :: "call \<Rightarrow> int set" where
  "moved_by (WindowsCreate (Some x)) = {x}"
| "moved_by (TabsMove ids w i) = set ids"
| "moved_by c = {}"

fun is_create :: "call \<Rightarrow> bool" where
  "is_create (TabsCreate u w a) = True"
| "is_create c = False"

fun is_remove :: "call \<Rightarrow> bool" where
  "is_remove (TabsRemove ids) = True"
| "is_remove c = False"

text \<open>The tabs that a call removes.\<close>

fun removed_by :: "call \<Rightarrow> int set" where
  "removed_by (TabsRemove ids) = set ids"
| "removed_by c = {}"

text \<open>
  A tab as the host issues it: a positive id and a cookie store id of the host's form.
\<close>

definition host_tab :: "tab \<Rightarrow> bool" where
  "host_tab x = (0 < tab_id x \<and> host_store_id (cookieStoreId x))"

text \<open>
  A platform function for the examples: the protocol of a URL in the serialised form in which
  the host stores it in \<^verbatim>\<open>tab.url\<close> is the text up to and including the first colon.
\<close>

definition serialised_protocol :: "string \<Rightarrow> string option" where
  "serialised_protocol u =
     (if CHR '':'' \<in> set u then Some (takeWhile (\<lambda>c. c \<noteq> CHR '':'') u @ '':'') else None)"

subsection \<open>Click and command dispatch\<close>

text \<open>
  The fields of \<^verbatim>\<open>browser.windows.Window\<close> that the script reads, for a window returned
  by \<^verbatim>\<open>browser.windows.getAll({populate: true, windowTypes: ["normal"]})\<close>.
\<close>

record window =
  win_id :: int
  win_incognito :: bool
  win_title :: string
  win_tabs :: "tab list"

record click_info =
  button :: int
  modifiers :: "string list"

text \<open>A call \<^verbatim>\<open>moveTabs(tab, targetWindowId, switchToActiveTab)\<close>; \<open>None\<close> is \<^verbatim>\<open>null\<close>.\<close>

datatype invocation = MoveTabs tab "int option" bool

text \<open>
  The loop of \<^verbatim>\<open>onClicked\<close> over the windows: the window of the tab is skipped (and
  deleted from the set when it holds one tab), the first other window ends the loop with a
  call of \<^verbatim>\<open>moveTabs\<close>.
\<close>

fun click_loop ::
  "tab \<Rightarrow> click_info \<Rightarrow> int option \<Rightarrow> window list \<Rightarrow> int list \<Rightarrow> int list \<times> invocation list" where
  "click_loop t info lastActiveWindow [] lastFocusedWindow = (lastFocusedWindow, [])"
| "click_loop t info lastActiveWindow (targetWindow # ws) lastFocusedWindow =
     (if win_id targetWindow = windowId t then
        click_loop t info lastActiveWindow ws
          (if length (win_tabs targetWindow) = 1
           then set_delete (win_id targetWindow) lastFocusedWindow else lastFocusedWindow)
      else
        (lastFocusedWindow,
         [MoveTabs t
            (if js_positive lastActiveWindow then lastActiveWindow else Some (win_id targetWindow))
            (if 0 < length (modifiers info) \<and> ''Shift'' \<in> set (modifiers info) then True
             else if button info = 1 then True else False)]))"

text \<open>
  \<^verbatim>\<open>onClicked(tab, info)\<close>, given the windows that the host returns: the new
  \<^verbatim>\<open>lastFocusedWindow\<close> and the calls of \<^verbatim>\<open>moveTabs\<close>.
\<close>

definition onClicked ::
  "tab \<Rightarrow> click_info \<Rightarrow> window list \<Rightarrow> int list \<Rightarrow> int list \<times> invocation list" where
  "onClicked t info targetWindows lastFocusedWindow =
     (let lastActiveWindow = js_index (rev lastFocusedWindow) 1
      in if length targetWindows = 1 then (lastFocusedWindow, [MoveTabs t None False])
         else click_loop t info lastActiveWindow targetWindows lastFocusedWindow)"

text \<open>
  The command \<^verbatim>\<open>move-tabs\<close>, given the answer of \<^verbatim>\<open>getCurrentTab()\<close>; the third
  argument of \<^verbatim>\<open>moveTabs\<close> takes its default \<^verbatim>\<open>false\<close>.
\<close>

definition onCommand_move_tabs :: "tab list \<Rightarrow> int list \<Rightarrow> invocation list" where
  "onCommand_move_tabs current lastFocusedWindow =
     (let lastActiveWindow = js_index (rev lastFocusedWindow) 1
      in case current of
           [] \<Rightarrow> []
         | t # ts \<Rightarrow> if js_positive lastActiveWindow then [MoveTabs t lastActiveWindow False] else [])"

text \<open>The entry before the last one of the recency set, if there is one.\<close>

definition second_to_last :: "'a list \<Rightarrow> 'a option" where
  "second_to_last s = (if 2 \<le> length s then Some (s ! (length s - 2)) else None)"

subsection \<open>Sorting the selected tabs\<close>

text \<open>
  \<^verbatim>\<open>sortSelectedTabs()\<close>, given the highlighted tabs of the current window.  The first
  argument is \<^verbatim>\<open>String.prototype.toLowerCase\<close>.  Strings are compared code unit by code
  unit, a proper prefix being smaller, which is the lexicographic order of lists.  The
  comparator is consistent with a total preorder on the tabs and \<^verbatim>\<open>Array.prototype.sort\<close>
  is stable, so the sorted array is the stable sort by the lower-case title.
\<close>

definition sortSelectedTabs :: "(string \<Rightarrow> string) \<Rightarrow> tab list \<Rightarrow> call list" where
  "sortSelectedTabs toLowerCase selectedTabs =
     (if 2 < length selectedTabs then
        (case sort_key (\<lambda>x. toLowerCase (title x)) selectedTabs of
           [] \<Rightarrow> []
         | first # others \<Rightarrow> [TabsMove (map tab_id (first # others)) None (tab_index first)])
      else [])"

text \<open>A lower-casing function for the examples: the letters \<open>A\<close> to \<open>Z\<close>.\<close>

definition ascii_lower :: "string \<Rightarrow> string" where
  "ascii_lower s =
     map (\<lambda>c. if CHR ''A'' \<le> c \<and> c \<le> CHR ''Z'' then char_of (of_char c + (32 :: nat)) else c) s"

subsection \<open>Context menu session manager\<close>

text \<open>The module variables of the menu code, with their initial values.\<close>

record menu_state =
  windowMenuIds :: "int list"
  lastMenuInstanceId :: int
  nextMenuInstanceId :: int

definition initial_menu_state :: menu_state where
  "initial_menu_state = \<lparr>windowMenuIds = [], lastMenuInstanceId = 0, nextMenuInstanceId = 1\<rparr>"

text \<open>
  The ids of the parent entries that the start-up function creates before it registers
  \<^verbatim>\<open>onMenuShown\<close> and \<^verbatim>\<open>onMenuHidden\<close>, each with its \<^verbatim>\<open>enabled\<close> property.  The
  creation of \<^verbatim>\<open>reopen-menu\<close> is commented out in the source.
\<close>

definition startup_menus :: "(string \<times> bool) list" where
  "startup_menus = [(''move-menu'', False)]"

text \<open>
  Lines 199 and 200: the session takes the next token, which becomes the current one.  The
  counter is a JavaScript number; it is exact for the first \<open>2 ^ 53\<close> sessions.
\<close>

definition onMenuShown_begin :: "menu_state \<Rightarrow> int \<times> menu_state" where
  "onMenuShown_begin st =
     (nextMenuInstanceId st,
      st\<lparr>nextMenuInstanceId := nextMenuInstanceId st + 1,
         lastMenuInstanceId := nextMenuInstanceId st\<rparr>)"

text \<open>
  The loop of lines 208 to 228 over the windows, with \<^verbatim>\<open>creatingMenus\<close> (the properties
  of the entries whose creation is requested), \<^verbatim>\<open>moveMenuItems\<close> and
  \<^verbatim>\<open>reopenMenuItems\<close>.
\<close>

fun menu_loop ::
  "tab \<Rightarrow> window list \<Rightarrow> menu_create list \<times> nat \<times> nat \<Rightarrow> menu_create list \<times> nat \<times> nat" where
  "menu_loop t [] acc = acc"
| "menu_loop t (targetWindow # ws) (creatingMenus, moveMenuItems, reopenMenuItems) =
     (if win_id targetWindow = windowId t then
        menu_loop t ws (creatingMenus, moveMenuItems, reopenMenuItems)
      else if incognito t = win_incognito targetWindow then
        menu_loop t ws
          (creatingMenus @
             [\<lparr>onclick = MoveTabsTo (win_id targetWindow), parentId = ''move-menu'',
               item_title = win_title targetWindow\<rparr>],
           moveMenuItems + 1, reopenMenuItems)
      else
        menu_loop t ws
          (creatingMenus @
             [\<lparr>onclick = ReopenTabsTo (win_id targetWindow), parentId = ''reopen-menu'',
               item_title = win_title targetWindow\<rparr>],
           moveMenuItems, reopenMenuItems + 1))"

text \<open>The calls that \<^verbatim>\<open>onMenuShown\<close> issues once it has the windows (lines 205 to 232).\<close>

definition onMenuShown_build :: "tab \<Rightarrow> window list \<Rightarrow> call list" where
  "onMenuShown_build t targetWindows =
     (case menu_loop t targetWindows ([], 0, 0) of
        (creatingMenus, moveMenuItems, reopenMenuItems) \<Rightarrow>
          map MenusCreate creatingMenus @
          [MenusUpdate ''move-menu'' (0 < moveMenuItems),
           MenusUpdate ''reopen-menu'' (0 < reopenMenuItems)])"

text \<open>
  Lines 233 to 244, given the token of the session and the answers of the host to the creations
  and to the two updates, on the module state as it is then.  \<^verbatim>\<open>createMenuItem\<close> rejects
  with \<^verbatim>\<open>lastError\<close> and resolves with the id of the entry otherwise.  A rejection makes
  the first \<^verbatim>\<open>await\<close> throw.
\<close>

definition onMenuShown_settle ::
  "int \<Rightarrow> (error + int) list \<Rightarrow> (error + unit) list \<Rightarrow> menu_state \<Rightarrow>
   menu_state \<times> call list \<times> error option" where
  "onMenuShown_settle menuInstanceId creatingMenus updatingMenus st =
     (case promise_all (map (map_sum id (\<lambda>x. ())) creatingMenus @ updatingMenus) of
        Inl e \<Rightarrow> (st, [], Some e)
      | Inr done \<Rightarrow>
          (case promise_all creatingMenus of
             Inl e \<Rightarrow> (st, [], Some e)
           | Inr newWindowMenuIds \<Rightarrow>
               if menuInstanceId \<noteq> lastMenuInstanceId st
               then (st, map MenusRemove newWindowMenuIds, None)
               else (st\<lparr>windowMenuIds := newWindowMenuIds\<rparr>, [MenusRefresh], None)))"

text \<open>\<^verbatim>\<open>onMenuHidden()\<close>.\<close>

definition onMenuHidden :: "menu_state \<Rightarrow> menu_state \<times> call list" where
  "onMenuHidden st =
     (st\<lparr>lastMenuInstanceId := 0\<rparr>,
      [MenusUpdate ''move-menu'' False, MenusUpdate ''reopen-menu'' False] @
      map MenusRemove (windowMenuIds st))"

subsection \<open>Menu sessions over time\<close>

text \<open>
  One menu-shown session: the tab and the windows it is built for, and the answers of the host
  to its \<open>i\<close>-th creation and to its \<open>i\<close>-th update.
\<close>

record session =
  sess_tab :: tab
  sess_windows :: "window list"
  menus_create :: "nat \<Rightarrow> error + int"
  menus_update :: "nat \<Rightarrow> error + unit"

text \<open>The answers to the creations that the session requests.\<close>

definition creating :: "session \<Rightarrow> (error + int) list" where
  "creating s =
     map (menus_create s)
       [0 ..< length (fst (menu_loop (sess_tab s) (sess_windows s) ([], 0, 0)))]"

definition updating :: "session \<Rightarrow> (error + unit) list" where
  "updating s = [menus_update s 0, menus_update s 1]"

text \<open>The entries that the host has created for the session.\<close>

fun fulfilled :: "(error + 'a) list \<Rightarrow> 'a list" where
  "fulfilled [] = []"
| "fulfilled (Inl e # ps) = fulfilled ps"
| "fulfilled (Inr v # ps) = v # fulfilled ps"

text \<open>
  The extension and the dynamic entries that exist in the menu of the host.  \<open>token n\<close> is
  the local variable \<^verbatim>\<open>menuInstanceId\<close> of session \<open>n\<close>.
\<close>

record world =
  ext :: menu_state
  entries :: "int list"
  token :: "nat \<Rightarrow> int"

text \<open>The effect of a call on the entries of the host: a removal deletes the entry.\<close>

fun host_menu :: "call \<Rightarrow> int list \<Rightarrow> int list" where
  "host_menu (MenusRemove i) es = removeAll i es"
| "host_menu c es = es"

text \<open>
  The events of the menu: session \<open>n\<close> is shown (lines 199 and 200 run); the host has
  carried out the creations that session \<open>n\<close> requested; all promises of session \<open>n\<close> are
  settled and the rest of \<^verbatim>\<open>onMenuShown\<close> runs; the menu is hidden.
\<close>

datatype menu_event = Shown nat | Built nat | Settled nat | Hidden

fun menu_step :: "(nat \<Rightarrow> session) \<Rightarrow> menu_event \<Rightarrow> world \<Rightarrow> world" where
  "menu_step sess (Shown n) w =
     (case onMenuShown_begin (ext w) of
        (menuInstanceId, st) \<Rightarrow> w\<lparr>ext := st, token := (token w)(n := menuInstanceId)\<rparr>)"
| "menu_step sess (Built n) w = w\<lparr>entries := entries w @ fulfilled (creating (sess n))\<rparr>"
| "menu_step sess (Settled n) w =
     (case onMenuShown_settle (token w n) (creating (sess n)) (updating (sess n)) (ext w) of
        (st, cs, err) \<Rightarrow> w\<lparr>ext := st, entries := fold host_menu cs (entries w)\<rparr>)"
| "menu_step sess Hidden w =
     (case onMenuHidden (ext w) of
        (st, cs) \<Rightarrow> w\<lparr>ext := st, entries := fold host_menu cs (entries w)\<rparr>)"

definition menu_run :: "(nat \<Rightarrow> session) \<Rightarrow> menu_event list \<Rightarrow> world \<Rightarrow> world" where
  "menu_run sess evs w = fold (menu_step sess) evs w"

text \<open>All promises of the session are fulfilled.\<close>

definition all_fulfilled :: "session \<Rightarrow> bool" where
  "all_fulfilled s =
     (creating s = map Inr (fulfilled (creating s)) \<and> updating s = [Inr (), Inr ()])"

text \<open>Session \<open>n\<close> holds the current token and session \<open>m\<close> does not.\<close>

definition current_not :: "world \<Rightarrow> nat \<Rightarrow> nat \<Rightarrow> bool" where
  "current_not w n m =
     (token w n = lastMenuInstanceId (ext w) \<and> token w m \<noteq> lastMenuInstanceId (ext w))"

text \<open>The entry that the loop of \<^verbatim>\<open>onMenuShown\<close> requests for a window.\<close>

definition entry_for :: "tab \<Rightarrow> window \<Rightarrow> menu_create" where
  "entry_for t w =
     (if incognito t = win_incognito w
      then \<lparr>onclick = MoveTabsTo (win_id w), parentId = ''move-menu'', item_title = win_title w\<rparr>
      else \<lparr>onclick = ReopenTabsTo (win_id w), parentId = ''reopen-menu'',
            item_title = win_title w\<rparr>)"

subsection \<open>Example data\<close>

text \<open>
  A highlighted tab of window \<open>10\<close> whose position is its id minus one, a host that answers
  every query with the given tabs, creates window \<open>20\<close> and fulfils every update, and two
  settings.
\<close>

definition example_tab :: "int \<Rightarrow> bool \<Rightarrow> string \<Rightarrow> string \<Rightarrow> string \<Rightarrow> tab" where
  "example_tab i a store u ti =
     \<lparr>tab_id = i, windowId = 10, tab_index = i - 1, active = a, highlighted = True,
      incognito = False, cookieStoreId = store, url = u, title = ti\<rparr>"

definition example_host :: "tab list \<Rightarrow> (nat \<Rightarrow> error + tab) \<Rightarrow> host" where
  "example_host highlightedTabs created =
     \<lparr>tabs_query = (\<lambda>w. Inr highlightedTabs), windows_create = (\<lambda>x. Inr 20),
      tabs_update = (\<lambda>x. Inr ()), tabs_create = created, url_protocol = serialised_protocol\<rparr>"

definition example_settings :: "bool \<Rightarrow> settings" where
  "example_settings sw =
     \<lparr>switchToTabAfterMoving = sw, moveableContainers = [''firefox-container-1'']\<rparr>"

text \<open>A selection over three cookie stores; the first tab is the active one.\<close>

definition tab_A :: tab where
  "tab_A = example_tab 1 True ''firefox-container-1'' ''https://a.example/'' ''Alpha''"

definition tab_B :: tab where
  "tab_B = example_tab 2 False ''firefox-container-2'' ''https://b.example/'' ''beta''"

definition tab_D :: tab where
  "tab_D = example_tab 3 False ''firefox-default'' ''about:config'' ''Config''"

text \<open>
  A selection for \<^verbatim>\<open>reopenTabs\<close>: the active tab shows a privileged page, the other two
  show web pages.
\<close>

definition tab_config :: tab where
  "tab_config = example_tab 3 True ''firefox-default'' ''about:config'' ''Config''"

definition tab_web :: tab where
  "tab_web = example_tab 1 False ''firefox-default'' ''https://a.example/'' ''Alpha''"

text \<open>
  The tabs that the host creates: ids from \<open>30\<close>, the first one active.  In the second host
  the second creation is rejected.
\<close>

definition created_ok :: "nat \<Rightarrow> error + tab" where
  "created_ok i = Inr (example_tab (int i + 30) (i = 0) ''firefox-private'' [] [])"

definition created_second_fails :: "nat \<Rightarrow> error + tab" where
  "created_second_fails i = (if i = 1 then Inl Rejected else created_ok i)"

text \<open>A normal window with the given tabs; its title is empty.\<close>

definition example_window :: "int \<Rightarrow> bool \<Rightarrow> tab list \<Rightarrow> window" where
  "example_window i private ts =
     \<lparr>win_id = i, win_incognito = private, win_title = [], win_tabs = ts\<rparr>"

text \<open>
  Menu sessions for \<open>tab_A\<close> with its own window \<open>10\<close> and the windows \<open>11\<close> and
  \<open>13\<close> of the same privacy mode; the host fulfils both updates and answers the creations
  as given.  The second session gets the entries \<open>200\<close> and \<open>201\<close>.  The world before
  any session.
\<close>

definition example_session :: "(nat \<Rightarrow> error + int) \<Rightarrow> session" where
  "example_session answers =
     \<lparr>sess_tab = tab_A,
      sess_windows =
        [example_window 10 False [tab_A], example_window 11 False [], example_window 13 False []],
      menus_create = answers, menus_update = (\<lambda>i. Inr ())\<rparr>"

definition example_sessions :: "(nat \<Rightarrow> error + int) \<Rightarrow> nat \<Rightarrow> session" where
  "example_sessions first n =
     (if n = 1 then example_session first else example_session (\<lambda>i. Inr (200 + int i)))"

definition example_world :: world where
  "example_world = \<lparr>ext = initial_menu_state, entries = [], token = (\<lambda>n. 0)\<rparr>"

text \<open>Tabs whose URLs have the protocols \<^verbatim>\<open>http:\<close>, \<^verbatim>\<open>ftp:\<close> and \<^verbatim>\<open>file:\<close>.\<close>

definition tab_http :: tab where
  "tab_http = example_tab 4 False ''firefox-default'' ''http://c.example/'' ''Gamma''"

definition tab_ftp :: tab where
  "tab_ftp = example_tab 5 False ''firefox-default'' ''ftp://d.example/pub'' ''Delta''"

definition tab_file :: tab where
  "tab_file = example_tab 6 False ''firefox-default'' ''file:///tmp/e.html'' ''Epsilon''"

section \<open>Properties of the recency tracker\<close>

lemma js_index_last:
  "js_index s (int (length s) - 1) = (if s = [] then None else Some (last s))"
  by (cases s rule: rev_cases) (simp_all add: js_index_def nth_append)

lemma js_index_head: "js_index s 0 = (if s = [] then None else Some (hd s))"
  by (cases s) (simp_all add: js_index_def)

lemma distinct_set_add: "distinct s \<Longrightarrow> distinct (set_add x s)"
  by (simp add: set_add_def)

lemma distinct_set_delete: "distinct s \<Longrightarrow> distinct (set_delete x s)"
  by (simp add: set_delete_def)

lemma set_delete_filter: "distinct s \<Longrightarrow> set_delete x s = filter (\<lambda>y. y \<noteq> x) s"
  by (simp add: set_delete_def distinct_remove1_removeAll removeAll_filter_not_eq)
    (metis (mono_tags, lifting) filter_cong)

lemma move_to_tail:
  "distinct s \<Longrightarrow> set_add x (set_delete x s) = filter (\<lambda>y. y \<noteq> x) s @ [x]"
  by (simp add: set_delete_filter set_add_def)

lemma distinct_fold_set_add: "distinct (fold set_add ws s) = distinct s"
  by (induction ws arbitrary: s) (auto simp: set_add_def)

text \<open>The set that the tracker starts with has no duplicates.\<close>

lemma distinct_seed: "distinct (fst (seed ws))"
  by (simp add: seed_def Let_def distinct_fold_set_add)

lemma onFocusChanged_cases:
  assumes "distinct s"
  shows "fst (onFocusChanged wid window s) =
           (if tracked_focus (wid, window) then filter (\<lambda>y. y \<noteq> wid) s @ [wid] else s)"
proof (cases "tracked_focus (wid, window)")
  case True
  then have w: "window = Some Normal" "0 < wid" "wid \<noteq> WINDOW_ID_NONE"
    by (auto simp: tracked_focus_def WINDOW_ID_NONE_def)
  show ?thesis
  proof (cases "s \<noteq> [] \<and> last s = wid")
    case True
    then obtain ys where ys: "s = ys @ [wid]"
      by (metis append_butlast_last_id)
    with assms have "wid \<notin> set ys" by simp
    then have "filter (\<lambda>y. y \<noteq> wid) s = ys"
      by (auto simp: ys filter_id_conv)
    with True w \<open>tracked_focus (wid, window)\<close> show ?thesis
      by (simp add: onFocusChanged_def js_index_def ys Let_def)
  next
    case False
    with w \<open>tracked_focus (wid, window)\<close> assms show ?thesis
      by (auto simp: onFocusChanged_def js_index_last move_to_tail Let_def)
  qed
next
  case False
  then show ?thesis
    by (auto simp: onFocusChanged_def tracked_focus_def Let_def split: option.splits)
qed

lemma distinct_onFocusChanged:
  "distinct s \<Longrightarrow> distinct (fst (onFocusChanged wid window s))"
  by (simp add: onFocusChanged_cases)

lemma distinct_focus_events: "distinct s \<Longrightarrow> distinct (focus_events evs s)"
  by (induction evs arbitrary: s) (auto simp: distinct_onFocusChanged)

lemma set_focus_events:
  "distinct s \<Longrightarrow> set (focus_events evs s) = set s \<union> fst ` set (filter tracked_focus evs)"
proof (induction evs arbitrary: s)
  case Nil
  then show ?case by simp
next
  case (Cons ev evs)
  obtain wid window where ev: "ev = (wid, window)" by (cases ev)
  let ?s' = "fst (onFocusChanged wid window s)"
  have d: "distinct ?s'" using Cons.prems by (rule distinct_onFocusChanged)
  have "set ?s' = set s \<union> (if tracked_focus ev then {wid} else {})"
    using Cons.prems by (auto simp: onFocusChanged_cases ev)
  with Cons.IH [OF d] show ?case
    by (auto simp: ev)
qed

lemma last_focus_events:
  "distinct s \<Longrightarrow> filter tracked_focus evs \<noteq> [] \<Longrightarrow>
   focus_events evs s \<noteq> [] \<and>
   last (focus_events evs s) = fst (last (filter tracked_focus evs))"
proof (induction evs arbitrary: s)
  case Nil
  then show ?case by simp
next
  case (Cons ev evs)
  obtain wid window where ev: "ev = (wid, window)" by (cases ev)
  let ?s' = "fst (onFocusChanged wid window s)"
  have d: "distinct ?s'" using Cons.prems(1) by (rule distinct_onFocusChanged)
  show ?case
  proof (cases "filter tracked_focus evs = []")
    case False
    with Cons.IH [OF d] show ?thesis by (simp add: ev)
  next
    case True
    with Cons.prems(2) have t: "tracked_focus ev" by (auto split: if_splits)
    have "set evs \<inter> {e. tracked_focus e} = {}"
      using True by (auto simp: filter_empty_conv)
    then have "focus_events evs ?s' = ?s'"
    proof (induction evs arbitrary: s)
      case Nil
      then show ?case by simp
    next
      case (Cons e es)
      obtain i w where e: "e = (i, w)" by (cases e)
      from Cons.prems have nt: "\<not> tracked_focus (i, w)" and rest: "set es \<inter> {e. tracked_focus e} = {}"
        by (auto simp: e)
      have same: "fst (onFocusChanged i w (fst (onFocusChanged wid window s))) =
                  fst (onFocusChanged wid window s)"
        using nt by (auto simp: onFocusChanged_def tracked_focus_def Let_def split: option.splits)
      show ?case
        using Cons.IH [OF rest, of s] by (simp add: e same)
    qed
    with t True Cons.prems(1) show ?thesis
      by (simp add: ev onFocusChanged_cases)
  qed
qed

lemma count_list_distinct: "distinct xs \<Longrightarrow> x \<in> set xs \<Longrightarrow> count_list xs x = 1"
  by (induction xs) auto

lemma onFocusChanged_nonpositive:
  "wid \<le> 0 \<Longrightarrow> onFocusChanged wid window s = (s, [])"
  by (auto simp: onFocusChanged_def split: option.splits)

text \<open>
  C7.  Window ids are positive integers and \<^verbatim>\<open>WINDOW_ID_NONE\<close> is the sentinel.  On a set
  without duplicates: the sentinel, a rejected lookup and a window that is not normal leave the
  set unchanged and request nothing; so does the id that is already the last entry; any other
  positive id of a normal window is moved to the tail (deleted, then added), and one badge
  refresh is requested for the entry that was last before the change.  After any sequence
  of focus events the set has no duplicates, each of its windows occurs exactly once, it holds
  the initial windows and the windows of the tracked events, and the window of the latest
  tracked event is its last entry.
\<close>

theorem onFocusChanged_recency:
  assumes "distinct s"
  shows "(wid = WINDOW_ID_NONE \<or> window \<noteq> Some Normal \<longrightarrow> onFocusChanged wid window s = (s, []))
       \<and> (js_index s (int (length s) - 1) = Some wid \<longrightarrow> onFocusChanged wid window s = (s, []))
       \<and> (0 < wid \<and> window = Some Normal \<and> js_index s (int (length s) - 1) \<noteq> Some wid \<longrightarrow>
            onFocusChanged wid window s =
              (filter (\<lambda>y. y \<noteq> wid) s @ [wid], [js_index s (int (length s) - 1)]))
       \<and> distinct (focus_events evs s)
       \<and> (\<forall>w \<in> set (focus_events evs s). count_list (focus_events evs s) w = 1)
       \<and> set (focus_events evs s) = set s \<union> fst ` set (filter tracked_focus evs)
       \<and> (filter tracked_focus evs \<noteq> [] \<longrightarrow>
            js_index (focus_events evs s) (int (length (focus_events evs s)) - 1) =
              Some (fst (last (filter tracked_focus evs))))"
proof -
  have a: "wid = WINDOW_ID_NONE \<or> window \<noteq> Some Normal \<longrightarrow> onFocusChanged wid window s = (s, [])"
    by (auto simp: onFocusChanged_def split: option.splits)
  have b: "js_index s (int (length s) - 1) = Some wid \<longrightarrow> onFocusChanged wid window s = (s, [])"
    by (auto simp: onFocusChanged_def Let_def split: option.splits)
  have c: "0 < wid \<and> window = Some Normal \<and> js_index s (int (length s) - 1) \<noteq> Some wid \<longrightarrow>
            onFocusChanged wid window s =
              (filter (\<lambda>y. y \<noteq> wid) s @ [wid], [js_index s (int (length s) - 1)])"
    using assms by (auto simp: onFocusChanged_def Let_def WINDOW_ID_NONE_def move_to_tail)
  have d: "distinct (focus_events evs s)"
    using assms by (rule distinct_focus_events)
  have e: "\<forall>w \<in> set (focus_events evs s). count_list (focus_events evs s) w = 1"
    using d by (simp add: count_list_distinct)
  have f: "set (focus_events evs s) = set s \<union> fst ` set (filter tracked_focus evs)"
    using assms by (rule set_focus_events)
  have g: "filter tracked_focus evs \<noteq> [] \<longrightarrow>
            js_index (focus_events evs s) (int (length (focus_events evs s)) - 1) =
              Some (fst (last (filter tracked_focus evs)))"
    using last_focus_events [OF assms] by (simp add: js_index_last)
  from a b c d e f g show ?thesis by blast
qed

theorem onFocusChanged_recency_witness:
  "distinct [1, 2, 3 :: int]
   \<and> onFocusChanged 2 (Some Normal) [1, 2, 3] = ([1, 3, 2], [Some 3])
   \<and> focus_events [(2, Some Normal), (- 1, None), (5, Some Popup), (1, Some Normal)] [1, 2, 3]
       = [3, 2, 1]
   \<and> js_index [3, 2, 1 :: int] 2 = Some 1"
  using onFocusChanged_recency [of "[1, 2, 3]" 2 "Some Normal"
      "[(2, Some Normal), (- 1, None), (5, Some Popup), (1, Some Normal)]"]
  by (simp add: onFocusChanged_def js_index_def set_add_def set_delete_def
      WINDOW_ID_NONE_def tracked_focus_def)

text \<open>
  C8.  On a set without duplicates, \<^verbatim>\<open>onRemoved(W)\<close> requests one badge refresh, for the
  head of the set as it is before the removal (\<^verbatim>\<open>undefined\<close> for the empty set), and the
  new set is the old one without \<open>W\<close>: \<open>W\<close> is absent, the other windows are all there and
  in the order they had.
\<close>

theorem onRemoved_consistency:
  assumes "distinct s"
  shows "snd (onRemoved W s) = [if s = [] then None else Some (hd s)]
       \<and> fst (onRemoved W s) = filter (\<lambda>w. w \<noteq> W) s
       \<and> W \<notin> set (fst (onRemoved W s))
       \<and> set (fst (onRemoved W s)) = set s - {W}
       \<and> subseq (fst (onRemoved W s)) s
       \<and> distinct (fst (onRemoved W s))"
  using assms
  by (auto simp: onRemoved_def js_index_head set_delete_filter)

theorem onRemoved_consistency_witness:
  "distinct [4, 7, 9 :: int] \<and> onRemoved 4 [4, 7, 9] = ([7, 9], [Some 4])
   \<and> onRemoved 7 [4, 7, 9] = ([4, 9], [Some 4])"
  using onRemoved_consistency [of "[4, 7, 9]" 4] onRemoved_consistency [of "[4, 7, 9]" 7]
  by (simp add: onRemoved_def js_index_def set_delete_def)

section \<open>Properties of the relocation engine\<close>

subsection \<open>The buckets of \<^verbatim>\<open>moveTabs\<close>\<close>

lemma first_keys_snoc:
  "first_keys (xs @ [x]) = (if x \<in> set xs then first_keys xs else first_keys xs @ [x])"
  by (simp add: first_keys_def)

lemma set_first_keys: "set (first_keys xs) = set xs"
  by (simp add: first_keys_def)

lemma distinct_first_keys: "distinct (first_keys xs)"
  by (simp add: first_keys_def)

lemma bucket_snoc:
  "bucket (sel @ [x]) k = bucket sel k @ (if cookieStoreId x = k then [tab_id x] else [])"
  by (simp add: bucket_def)

lemma bucket_empty: "k \<notin> cookieStoreId ` set sel \<Longrightarrow> bucket sel k = []"
  by (auto simp: bucket_def filter_empty_conv)

lemma push_bucket_grouped:
  "push_bucket (map (\<lambda>k. (k, bucket xs k)) (first_keys (map cookieStoreId xs))) x =
     map (\<lambda>k. (k, bucket (xs @ [x]) k)) (first_keys (map cookieStoreId (xs @ [x])))"
proof -
  let ?ks = "first_keys (map cookieStoreId xs)"
  have keys: "fst ` set (map (\<lambda>k. (k, bucket xs k)) ?ks) = cookieStoreId ` set xs"
    by (force simp: set_first_keys)
  show ?thesis
  proof (cases "cookieStoreId x \<in> cookieStoreId ` set xs")
    case True
    then show ?thesis
      using keys by (simp add: push_bucket_def first_keys_snoc bucket_snoc)
  next
    case False
    then show ?thesis
      using keys by (simp add: push_bucket_def first_keys_snoc bucket_snoc bucket_empty)
  qed
qed

text \<open>
  The reducer groups the selection: one entry per cookie store, in the order in which the
  stores first occur, each with the ids of its tabs in selection order.
\<close>

lemma group_fold:
  "fold (\<lambda>x obj. push_bucket obj x) sel [] =
     map (\<lambda>k. (k, bucket sel k)) (first_keys (map cookieStoreId sel))"
proof (induction sel rule: rev_induct)
  case Nil
  then show ?case by (simp add: first_keys_def)
next
  case (snoc x xs)
  have "fold (\<lambda>x obj. push_bucket obj x) (xs @ [x]) [] =
        push_bucket (fold (\<lambda>x obj. push_bucket obj x) xs []) x"
    by simp
  also have "\<dots> = push_bucket (map (\<lambda>k. (k, bucket xs k)) (first_keys (map cookieStoreId xs))) x"
    by (simp only: snoc.IH)
  finally show ?case
    by (simp only: push_bucket_grouped)
qed

lemma remove1_filter_distinct: "distinct ks \<Longrightarrow> remove1 k ks = filter (\<lambda>x. x \<noteq> k) ks"
proof (induction ks)
  case Nil
  then show ?case by simp
next
  case (Cons a ks)
  have "k \<notin> set ks \<Longrightarrow> filter (\<lambda>x. x \<noteq> k) ks = ks"
    by (induction ks) auto
  with Cons show ?case by auto
qed

lemma containered_first_grouped:
  assumes "distinct ks"
  shows "containered_first (map (\<lambda>k. (k, f k)) ks) =
           (if 1 < length ks \<and> ''firefox-default'' \<in> set ks
            then (map (\<lambda>k. (k, f k)) (filter (\<lambda>k. k \<noteq> ''firefox-default'') ks),
                  filter (\<lambda>k. k \<noteq> ''firefox-default'') ks)
            else (map (\<lambda>k. (k, f k)) ks, ks))"
  using assms
  by (simp add: containered_first_def comp_def filter_map remove1_filter_distinct)

lemma map_of_grouped: "k \<in> set ks \<Longrightarrow> map_of (map (\<lambda>k. (k, f k)) ks) k = Some (f k)"
  by (induction ks) auto

lemma start_moves_lookup:
  "start_moves cfg h target (map (\<lambda>k. (k, f k)) ks) ks =
     map (\<lambda>k. moveToWindow h (if k \<in> set (moveableContainers cfg) then Some 0 else target) (f k)) ks"
  by (simp add: start_moves_def map_of_grouped)

lemma tasks_append: "tasks (xs @ ys) = tasks xs @ tasks ys"
  by (induction xs rule: tasks.induct) auto

lemma tasks_Issued: "tasks (map Issued cs) = []"
  by (induction cs) auto

lemma tasks_Issued_comp: "tasks (map (Issued \<circ> f) xs) = []"
  by (induction xs) auto

lemma tasks_Issued_fun: "tasks (map (\<lambda>x. Issued (f x)) xs) = []"
  by (induction xs) auto

lemma tasks_Started: "tasks (map Started ms) = ms"
  by (induction ms) auto

lemma tasks_Started_comp: "tasks (map (Started \<circ> f) xs) = map f xs"
  by (induction xs) auto

lemmas tasks_simps = tasks_append tasks_Issued tasks_Issued_comp tasks_Issued_fun tasks_Started
  tasks_Started_comp

lemma bucket_nonempty: "k \<in> set (first_keys (map cookieStoreId sel)) \<Longrightarrow> bucket sel k \<noteq> []"
  by (auto simp: set_first_keys bucket_def filter_empty_conv)

lemma moved_by_moveToWindow:
  "\<Union> (moved_by ` set (moveToWindow h target ids)) \<subseteq> set ids"
  by (auto simp: moveToWindow_def js_pop_def split: sum.splits if_splits dest: in_set_butlastD)

lemma two_keys:
  assumes "distinct ks" "a \<in> set ks" "b \<in> set ks" "a \<noteq> b"
  shows "1 < length ks"
proof -
  have "card {a, b} \<le> card (set ks)"
    using assms by (intro card_mono) auto
  with assms show ?thesis
    by (simp add: distinct_card)
qed

text \<open>
  \<^verbatim>\<open>moveTabs\<close> on a resolved selection: the query, then the start of one move for each
  key that is left, then the switch to the active tab.
\<close>

lemma moveTabs_resolved:
  assumes "selection h t = (q, Inr sel)"
  shows "moveTabs cfg h t target sw =
     (let ks = first_keys (map cookieStoreId sel);
          ks' = (if 1 < length ks \<and> ''firefox-default'' \<in> set ks
                 then filter (\<lambda>k. k \<noteq> ''firefox-default'') ks else ks);
          moved = map Issued q @
            map Started
              (map (\<lambda>k. moveToWindow h
                      (if k \<in> set (moveableContainers cfg) then Some 0 else target)
                      (bucket sel k)) ks')
      in if switch_wanted cfg sw (find active sel) then
           (case find active sel of
              None \<Rightarrow> \<lparr>steps = moved, thrown = Some TypeError\<rparr>
            | Some a \<Rightarrow>
                (case tabs_update h (tab_id a) of
                   Inl e \<Rightarrow> \<lparr>steps = moved @ [Issued (TabsActivate (tab_id a))], thrown = Some e\<rparr>
                 | Inr u \<Rightarrow>
                     \<lparr>steps = moved @ Issued (TabsActivate (tab_id a)) #
                        map (\<lambda>x. Issued (TabsHighlight (tab_id x)))
                          (filter (\<lambda>x. tab_id x \<noteq> tab_id a) sel),
                      thrown = None\<rparr>))
         else \<lparr>steps = moved, thrown = None\<rparr>)"
  using assms
  by (simp add: moveTabs_def group_fold containered_first_grouped distinct_first_keys
      start_moves_lookup Let_def split: option.splits sum.splits)

lemma tasks_moveTabs:
  assumes "selection h t = (q, Inr sel)"
  shows "tasks (steps (moveTabs cfg h t target sw)) =
           (let ks = first_keys (map cookieStoreId sel);
                ks' = (if 1 < length ks \<and> ''firefox-default'' \<in> set ks
                       then filter (\<lambda>k. k \<noteq> ''firefox-default'') ks else ks)
            in map (\<lambda>k. moveToWindow h
                          (if k \<in> set (moveableContainers cfg) then Some 0 else target)
                          (bucket sel k)) ks')"
  by (simp add: moveTabs_resolved [OF assms] Let_def tasks_simps
      split: option.splits sum.splits)

text \<open>
  C1, as the code has it.  When the selection, of tabs as the host issues them with ids
  that differ, spans more than one cookie store and \<^verbatim>\<open>firefox-default\<close> is one of them,
  the default bucket is taken out before the loop (``handle just containered tabs first on
  first click'').  One move is started for each other bucket, in the order in which the stores
  first occur in the selection.  When the store is configured as moveable (or the target is
  not a window id of at least \<open>1\<close>), the move asks the host for a new window made from the
  last tab of the bucket and, once the window is there, moves the other tabs of the bucket to
  its tail; otherwise it moves the tabs of the bucket to the tail of the target window.  No
  call of these moves names a tab of the default bucket, and every other tab of the
  selection is named in one, provided the new window of its bucket is created.
\<close>

theorem moveTabs_mixed_selection:
  fixes cfg h target sel
  defines "new_window \<equiv> \<lambda>k. k \<in> set (moveableContainers cfg) \<or>
             (case target of None \<Rightarrow> True | Some n \<Rightarrow> n < 1)"
  defines "move \<equiv> \<lambda>k.
             if new_window k
             then (case windows_create h (Some (last (bucket sel k))) of
                     Inl e \<Rightarrow> [WindowsCreate (Some (last (bucket sel k)))]
                   | Inr w \<Rightarrow>
                       [WindowsCreate (Some (last (bucket sel k))),
                        TabsMove (butlast (bucket sel k)) (Some w) (- 1)])
             else [TabsMove (bucket sel k) target (- 1)]"
  assumes sel: "selection h t = (q, Inr sel)"
    and wf: "\<forall>x \<in> set sel. host_tab x" "distinct (map tab_id sel)"
    and dflt: "\<exists>x \<in> set sel. cookieStoreId x = ''firefox-default''"
    and other: "\<exists>x \<in> set sel. cookieStoreId x \<noteq> ''firefox-default''"
  shows "tasks (steps (moveTabs cfg h t target sw)) =
           map move
             (filter (\<lambda>k. k \<noteq> ''firefox-default'') (first_keys (map cookieStoreId sel)))
       \<and> (\<forall>x \<in> set sel. cookieStoreId x = ''firefox-default'' \<longrightarrow>
            (\<forall>c \<in> set (concat (tasks (steps (moveTabs cfg h t target sw)))).
               tab_id x \<notin> moved_by c))
       \<and> (\<forall>x \<in> set sel. cookieStoreId x \<noteq> ''firefox-default'' \<longrightarrow>
            (new_window (cookieStoreId x) \<longrightarrow>
               (\<exists>w. windows_create h (Some (last (bucket sel (cookieStoreId x)))) = Inr w)) \<longrightarrow>
            (\<exists>c \<in> set (concat (tasks (steps (moveTabs cfg h t target sw)))).
               tab_id x \<in> moved_by c))"
proof -
  let ?ks = "first_keys (map cookieStoreId sel)"
  let ?ks' = "filter (\<lambda>k. k \<noteq> ''firefox-default'') ?ks"
  let ?mv = "\<lambda>k. moveToWindow h (if k \<in> set (moveableContainers cfg) then Some 0 else target)
                 (bucket sel k)"
  from dflt obtain x0 where x0: "x0 \<in> set sel" "cookieStoreId x0 = ''firefox-default''"
    by blast
  from other obtain x1 where x1: "x1 \<in> set sel" "cookieStoreId x1 \<noteq> ''firefox-default''"
    by blast
  have d: "''firefox-default'' \<in> set ?ks"
    using x0 by (force simp: set_first_keys)
  moreover have "cookieStoreId x1 \<in> set ?ks"
    using x1 by (simp add: set_first_keys)
  ultimately have "1 < length ?ks"
    using x1(2) two_keys [OF distinct_first_keys] by metis
  with d have started: "tasks (steps (moveTabs cfg h t target sw)) = map ?mv ?ks'"
    by (simp add: tasks_moveTabs [OF sel])
  have mv: "?mv k = move k" if "k \<in> set ?ks'" for k
  proof -
    from that have "bucket sel k \<noteq> []"
      by (simp add: bucket_nonempty)
    then show ?thesis
      by (simp add: move_def new_window_def moveToWindow_def js_lt1_def js_pop_def
          split: option.splits)
  qed
  then have "map ?mv ?ks' = map move ?ks'"
    by (intro map_cong) simp_all
  with started have eq: "tasks (steps (moveTabs cfg h t target sw)) = map move ?ks'"
    by simp
  have nd: "tab_id x \<notin> moved_by c"
    if x: "x \<in> set sel" "cookieStoreId x = ''firefox-default''"
      and c: "c \<in> set (concat (tasks (steps (moveTabs cfg h t target sw))))" for x c
  proof
    assume m: "tab_id x \<in> moved_by c"
    from c obtain k where k: "k \<noteq> ''firefox-default''" and ck: "c \<in> set (?mv k)"
      by (auto simp: started)
    from m ck moved_by_moveToWindow have "tab_id x \<in> set (bucket sel k)"
      by blast
    then obtain y where y: "y \<in> set sel" "cookieStoreId y = k" "tab_id y = tab_id x"
      by (auto simp: bucket_def)
    with wf(2) x(1) have "y = x"
      by (auto simp: distinct_map dest: inj_onD)
    with y k x show False by simp
  qed
  have mvd: "\<exists>c \<in> set (concat (tasks (steps (moveTabs cfg h t target sw)))). tab_id x \<in> moved_by c"
    if x: "x \<in> set sel" "cookieStoreId x \<noteq> ''firefox-default''"
      and w: "new_window (cookieStoreId x) \<longrightarrow>
               (\<exists>w. windows_create h (Some (last (bucket sel (cookieStoreId x)))) = Inr w)" for x
  proof -
    let ?k = "cookieStoreId x"
    let ?ids = "bucket sel ?k"
    from x have k: "?k \<in> set ?ks'"
      by (simp add: set_first_keys)
    from x(1) have i: "tab_id x \<in> set ?ids"
      by (auto simp: bucket_def)
    then have ne: "?ids \<noteq> []" by auto
    have "\<exists>c \<in> set (move ?k). tab_id x \<in> moved_by c"
    proof (cases "new_window ?k")
      case True
      with w obtain nw where nw: "windows_create h (Some (last ?ids)) = Inr nw"
        by blast
      from i ne have "tab_id x = last ?ids \<or> tab_id x \<in> set (butlast ?ids)"
        by (metis append_butlast_last_id in_set_conv_decomp_first rotate1.simps(2) set_ConsD
            set_rotate1)
      with True nw show ?thesis
        by (auto simp: move_def)
    next
      case False
      with i show ?thesis
        by (simp add: move_def)
    qed
    with k show ?thesis
      by (auto simp: eq)
  qed
  from eq nd mvd show ?thesis
    by (intro conjI ballI impI) blast+
qed

lemmas example_defs =
  example_host_def example_settings_def example_tab_def tab_A_def tab_B_def tab_D_def
  serialised_protocol_def

theorem moveTabs_mixed_selection_witness:
  "tasks (steps (moveTabs (example_settings False)
       (example_host [tab_A, tab_B, tab_D] created_ok) tab_A (Some 11) False)) =
     [[WindowsCreate (Some 1), TabsMove [] (Some 20) (- 1)], [TabsMove [2] (Some 11) (- 1)]]
   \<and> tab_id tab_D \<notin> \<Union> (moved_by ` set (concat (tasks (steps (moveTabs (example_settings False)
          (example_host [tab_A, tab_B, tab_D] created_ok) tab_A (Some 11) False)))))
   \<and> tab_id tab_B \<in> \<Union> (moved_by ` set (concat (tasks (steps (moveTabs (example_settings False)
          (example_host [tab_A, tab_B, tab_D] created_ok) tab_A (Some 11) False)))))"
proof -
  let ?h = "example_host [tab_A, tab_B, tab_D] created_ok"
  let ?r = "moveTabs (example_settings False) ?h tab_A (Some 11) False"
  have h1: "selection ?h tab_A = ([TabsQuery 10], Inr [tab_A, tab_B, tab_D])"
    by (simp add: selection_def example_defs)
  have h2: "\<forall>x \<in> set [tab_A, tab_B, tab_D]. host_tab x"
    by (simp add: host_tab_def host_store_id_def example_defs)
  have h3: "distinct (map tab_id [tab_A, tab_B, tab_D])"
    by (simp add: example_defs)
  have h4: "\<exists>x \<in> set [tab_A, tab_B, tab_D]. cookieStoreId x = ''firefox-default''"
    by (simp add: example_defs)
  have h5: "\<exists>x \<in> set [tab_A, tab_B, tab_D]. cookieStoreId x \<noteq> ''firefox-default''"
    by (simp add: example_defs)
  have d: "cookieStoreId tab_D = ''firefox-default''"
    by (simp add: example_defs)
  have m: "tab_D \<in> set [tab_A, tab_B, tab_D]"
    by simp
  note inst = moveTabs_mixed_selection [OF h1 h2 h3 h4 h5, of "example_settings False" "Some 11" False]
  have run: "tasks (steps ?r) =
     [[WindowsCreate (Some 1), TabsMove [] (Some 20) (- 1)], [TabsMove [2] (Some 11) (- 1)]]"
    by (simp add: moveTabs_def selection_def example_defs push_bucket_def containered_first_def
        start_moves_def moveToWindow_def js_lt1_def js_pop_def switch_wanted_def)
  from inst have "tasks (steps ?r) =
     map (\<lambda>k. if k \<in> set (moveableContainers (example_settings False)) \<or> False
              then (case windows_create ?h (Some (last (bucket [tab_A, tab_B, tab_D] k))) of
                      Inl e \<Rightarrow> [WindowsCreate (Some (last (bucket [tab_A, tab_B, tab_D] k)))]
                    | Inr w \<Rightarrow>
                        [WindowsCreate (Some (last (bucket [tab_A, tab_B, tab_D] k))),
                         TabsMove (butlast (bucket [tab_A, tab_B, tab_D] k)) (Some w) (- 1)])
              else [TabsMove (bucket [tab_A, tab_B, tab_D] k) (Some 11) (- 1)])
       (filter (\<lambda>k. k \<noteq> ''firefox-default'')
          (first_keys (map cookieStoreId [tab_A, tab_B, tab_D])))"
    by simp
  also have "\<dots> =
     [[WindowsCreate (Some 1), TabsMove [] (Some 20) (- 1)], [TabsMove [2] (Some 11) (- 1)]]"
    by (simp add: first_keys_def bucket_def example_defs)
  finally have a: "tasks (steps ?r) =
     [[WindowsCreate (Some 1), TabsMove [] (Some 20) (- 1)], [TabsMove [2] (Some 11) (- 1)]]" .
  from inst m d have b: "tab_id tab_D \<notin> \<Union> (moved_by ` set (concat (tasks (steps ?r))))"
    by blast
  from run have c: "tab_id tab_B \<in> \<Union> (moved_by ` set (concat (tasks (steps ?r))))"
    by (simp add: example_defs)
  from a b c show ?thesis by (intro conjI)
qed

text \<open>
  Three highlighted tabs in the stores \<^verbatim>\<open>firefox-container-1\<close> (moveable),
  \<^verbatim>\<open>firefox-container-2\<close> and \<^verbatim>\<open>firefox-default\<close>: tab \<open>1\<close> goes to a new window,
  tab \<open>2\<close> to the target window \<open>11\<close>, and no call moves the default tab \<open>3\<close>.
\<close>

theorem moveTabs_default_bucket_counterexample:
  "moveTabs (example_settings False) (example_host [tab_A, tab_B, tab_D] created_ok)
     tab_A (Some 11) False =
   \<lparr>steps = [Issued (TabsQuery 10),
              Started [WindowsCreate (Some 1), TabsMove [] (Some 20) (- 1)],
              Started [TabsMove [2] (Some 11) (- 1)]],
    thrown = None\<rparr>
   \<and> tab_id tab_D = 3 \<and> cookieStoreId tab_D = ''firefox-default''
   \<and> 3 \<notin> \<Union> (moved_by ` set (concat (tasks (steps
         (moveTabs (example_settings False)
            (example_host [tab_A, tab_B, tab_D] created_ok) tab_A (Some 11) False)))))"
  by (simp add: moveTabs_def selection_def example_defs push_bucket_def containered_first_def
      start_moves_def moveToWindow_def js_lt1_def js_pop_def switch_wanted_def)

subsection \<open>The switch to the active tab\<close>

lemma find_active_in: "find active sel = Some a \<Longrightarrow> a \<in> set sel \<and> active a"
  by (auto simp: find_Some_iff)

text \<open>
  C6, as the code has it.  When the selection, of tabs as the host issues them, contains an
  active tab, and the switch is forced or the setting \<^verbatim>\<open>switchToTabAfterMoving\<close> is on, and
  the host fulfils the reactivation, then the function does exactly this, in this order: the
  query (if any); the start of the move of each bucket that is left, to a new window or to
  the target window; the reactivation of the active tab; and then one call for every other
  tab of the selection that marks it inactive and highlighted.  The function ends without
  an error.
\<close>

theorem moveTabs_active_preservation:
  fixes cfg h target sel
  defines "new_window \<equiv> \<lambda>k. k \<in> set (moveableContainers cfg) \<or>
             (case target of None \<Rightarrow> True | Some n \<Rightarrow> n < 1)"
  defines "move \<equiv> \<lambda>k.
             if new_window k
             then (case windows_create h (Some (last (bucket sel k))) of
                     Inl e \<Rightarrow> [WindowsCreate (Some (last (bucket sel k)))]
                   | Inr w \<Rightarrow>
                       [WindowsCreate (Some (last (bucket sel k))),
                        TabsMove (butlast (bucket sel k)) (Some w) (- 1)])
             else [TabsMove (bucket sel k) target (- 1)]"
  defines "keys \<equiv>
             if 1 < length (first_keys (map cookieStoreId sel)) \<and>
                ''firefox-default'' \<in> set (first_keys (map cookieStoreId sel))
             then filter (\<lambda>k. k \<noteq> ''firefox-default'') (first_keys (map cookieStoreId sel))
             else first_keys (map cookieStoreId sel)"
  assumes sel: "selection h t = (q, Inr sel)"
    and wf: "\<forall>x \<in> set sel. host_tab x"
    and act: "find active sel = Some a"
    and want: "sw \<or> switchToTabAfterMoving cfg"
    and ok: "tabs_update h (tab_id a) = Inr u"
  shows "steps (moveTabs cfg h t target sw) =
           map Issued q @ map Started (map move keys) @
           Issued (TabsActivate (tab_id a)) #
           map (\<lambda>x. Issued (TabsHighlight (tab_id x))) (filter (\<lambda>x. tab_id x \<noteq> tab_id a) sel)
       \<and> thrown (moveTabs cfg h t target sw) = None"
proof -
  let ?mv = "\<lambda>k. moveToWindow h (if k \<in> set (moveableContainers cfg) then Some 0 else target)
                 (bucket sel k)"
  from act wf have "host_tab a"
    using find_active_in by blast
  then have "tab_id a \<noteq> 0"
    by (simp add: host_tab_def)
  with want act have sw: "switch_wanted cfg sw (find active sel)"
    by (auto simp: switch_wanted_def)
  have sub: "set keys \<subseteq> set (first_keys (map cookieStoreId sel))"
    by (auto simp: keys_def)
  have "?mv k = move k" if "k \<in> set keys" for k
  proof -
    from that sub have "bucket sel k \<noteq> []"
      by (auto simp: bucket_nonempty)
    then show ?thesis
      by (simp add: move_def new_window_def moveToWindow_def js_lt1_def js_pop_def
          split: option.splits)
  qed
  then have mv: "map ?mv keys = map move keys"
    by (intro map_cong) simp_all
  have "moveTabs cfg h t target sw =
     \<lparr>steps = (map Issued q @ map Started (map ?mv keys)) @ Issued (TabsActivate (tab_id a)) #
        map (\<lambda>x. Issued (TabsHighlight (tab_id x))) (filter (\<lambda>x. tab_id x \<noteq> tab_id a) sel),
      thrown = None\<rparr>"
    using sw act ok by (simp add: moveTabs_resolved [OF sel] Let_def keys_def)
  with mv show ?thesis by simp
qed

theorem moveTabs_active_preservation_witness:
  "steps (moveTabs (example_settings True) (example_host [tab_A, tab_B, tab_D] created_ok)
      tab_A (Some 11) False) =
     [Issued (TabsQuery 10),
      Started [WindowsCreate (Some 1), TabsMove [] (Some 20) (- 1)],
      Started [TabsMove [2] (Some 11) (- 1)],
      Issued (TabsActivate 1), Issued (TabsHighlight 2), Issued (TabsHighlight 3)]
   \<and> thrown (moveTabs (example_settings True) (example_host [tab_A, tab_B, tab_D] created_ok)
      tab_A (Some 11) False) = None"
proof -
  let ?h = "example_host [tab_A, tab_B, tab_D] created_ok"
  have h1: "selection ?h tab_A = ([TabsQuery 10], Inr [tab_A, tab_B, tab_D])"
    by (simp add: selection_def example_defs)
  have h2: "\<forall>x \<in> set [tab_A, tab_B, tab_D]. host_tab x"
    by (simp add: host_tab_def host_store_id_def example_defs)
  have h3: "find active [tab_A, tab_B, tab_D] = Some tab_A"
    by (simp add: example_defs)
  have h4: "False \<or> switchToTabAfterMoving (example_settings True)"
    by (simp add: example_defs)
  have h5: "tabs_update ?h (tab_id tab_A) = Inr ()"
    by (simp add: example_defs)
  have run: "moveTabs (example_settings True) ?h tab_A (Some 11) False =
     \<lparr>steps = [Issued (TabsQuery 10),
                Started [WindowsCreate (Some 1), TabsMove [] (Some 20) (- 1)],
                Started [TabsMove [2] (Some 11) (- 1)],
                Issued (TabsActivate 1), Issued (TabsHighlight 2), Issued (TabsHighlight 3)],
      thrown = None\<rparr>"
    by (simp add: moveTabs_def selection_def example_defs push_bucket_def containered_first_def
        start_moves_def moveToWindow_def js_lt1_def js_pop_def switch_wanted_def)
  from moveTabs_active_preservation [OF h1 h2 h3 h4 h5, of "Some 11"]
  have "thrown (moveTabs (example_settings True) ?h tab_A (Some 11) False) = None"
    by (rule conjunct2)
  with run show ?thesis by simp
qed

text \<open>
  The same call on a host that rejects the reactivation (the tab is gone, say): the awaited
  call throws, and no other tab of the selection is marked inactive and highlighted.
\<close>

theorem moveTabs_rejected_activation_counterexample:
  "moveTabs (example_settings True)
     ((example_host [tab_A, tab_B, tab_D] created_ok)\<lparr>tabs_update := (\<lambda>x. Inl Rejected)\<rparr>)
     tab_A (Some 11) False =
   \<lparr>steps = [Issued (TabsQuery 10),
              Started [WindowsCreate (Some 1), TabsMove [] (Some 20) (- 1)],
              Started [TabsMove [2] (Some 11) (- 1)],
              Issued (TabsActivate 1)],
    thrown = Some Rejected\<rparr>
   \<and> map tab_id [tab_A, tab_B, tab_D] = [1, 2, 3] \<and> active tab_A"
  by (simp add: moveTabs_def selection_def example_defs push_bucket_def containered_first_def
      start_moves_def moveToWindow_def js_lt1_def js_pop_def switch_wanted_def)

text \<open>
  The forced switch on a selection without an active tab: the moves are started, then the
  read of \<^verbatim>\<open>activeTab.id\<close> throws and no tab is reactivated or highlighted.  The callers
  in the script force the switch for the active tab of the current window only.
\<close>

lemma moveTabs_forced_switch_without_active:
  "moveTabs (example_settings True) (example_host [tab_A, tab_B, tab_D] created_ok)
     (tab_B\<lparr>highlighted := False\<rparr>) (Some 11) True =
   \<lparr>steps = [Started [TabsMove [2] (Some 11) (- 1)]], thrown = Some TypeError\<rparr>"
  by (simp add: moveTabs_def selection_def example_defs push_bucket_def containered_first_def
      start_moves_def moveToWindow_def js_lt1_def js_pop_def switch_wanted_def)

subsection \<open>Reopening tabs\<close>

lemma promise_all_Inr: "promise_all ps = Inr vs \<Longrightarrow> ps = map Inr vs"
proof (induction ps arbitrary: vs)
  case Nil
  then show ?case by simp
next
  case (Cons p ps)
  then show ?case
    by (cases p) (auto split: sum.splits)
qed

lemma promise_all_map_Inr: "promise_all (map Inr vs) = Inr vs"
  by (induction vs) auto

lemma promise_all_rejected:
  assumes "i < length ps" "ps ! i = Inl e"
  shows "\<exists>e'. promise_all ps = Inl e'"
proof (cases "promise_all ps")
  case (Inl e')
  then show ?thesis by blast
next
  case (Inr vs)
  then have "ps = map Inr vs" by (rule promise_all_Inr)
  with assms show ?thesis by auto
qed

lemma selection_calls: "selection h t = (q, r) \<Longrightarrow> \<forall>c \<in> set q. \<not> is_create c \<and> \<not> is_remove c"
  by (auto simp: selection_def split: if_splits)

lemma length_designate_active [simp]: "length (designate_active xs) = length xs"
  by (auto simp: designate_active_def split: option.splits list.splits)

lemma tab_id_designate_active [simp]: "map tab_id (designate_active xs) = map tab_id xs"
  by (auto simp: designate_active_def split: option.splits list.splits)

lemma filter_create_q: "\<forall>c \<in> set q. \<not> is_create c \<and> \<not> is_remove c \<Longrightarrow> filter is_create q = []"
  by (induction q) auto

lemma reopenTabs_stops:
  assumes "selection h t = (q, r)"
    and "(\<exists>e. r = Inl e) \<or> (\<exists>hl. r = Inr hl \<and>
           ((\<exists>x \<in> set hl. url_protocol h (url x) = None) \<or> filter (allowed h) hl = []))"
  shows "calls (reopenTabs h t target) = q"
proof (cases r)
  case (Inl e)
  with assms(1) show ?thesis by (simp add: reopenTabs_def)
next
  case (Inr hl)
  show ?thesis
  proof (cases "\<exists>x \<in> set hl. url_protocol h (url x) = None")
    case True
    then show ?thesis
      using assms(1) Inr by (simp add: reopenTabs_def if_P [OF True])
  next
    case False
    with assms(2) Inr have "filter (allowed h) hl = []" by blast
    then show ?thesis
      using assms(1) Inr by (simp add: reopenTabs_def)
  qed
qed

lemma reopenTabs_creates:
  assumes "selection h t = (q, Inr hl)"
    and "\<forall>x \<in> set hl. url_protocol h (url x) \<noteq> None"
    and "filter (allowed h) hl \<noteq> []"
  shows "reopenTabs h t target =
     (let selectedTabs = designate_active (filter (allowed h) hl);
          creating = map (\<lambda>x. TabsCreate (url x) target (active x)) selectedTabs
      in case promise_all (map (tabs_create h) [0 ..< length selectedTabs]) of
           Inl e \<Rightarrow> \<lparr>calls = q @ creating, started = [], failure = Some e\<rparr>
         | Inr newTabs \<Rightarrow>
             \<lparr>calls = q @ creating
                @ map (\<lambda>x. TabsHighlight (tab_id x)) (filter (\<lambda>x. \<not> active x) newTabs)
                @ [TabsRemove (map tab_id selectedTabs)],
              started = [], failure = None\<rparr>)"
  using assms by (auto simp: reopenTabs_def Let_def)

text \<open>
  C4.  When the host rejects one of the creations that \<^verbatim>\<open>reopenTabs\<close> has issued, the
  function ends with an error and none of its calls is a removal: the originals are not
  removed.
\<close>

theorem reopenTabs_failed_creation:
  assumes i: "i < length (filter is_create (calls (reopenTabs h t target)))"
    and rej: "tabs_create h i = Inl e"
  shows "failure (reopenTabs h t target) \<noteq> None
       \<and> (\<forall>c \<in> set (calls (reopenTabs h t target)). \<not> is_remove c)"
proof (cases "selection h t")
  case (Pair q r)
  note q = selection_calls [OF Pair]
  show ?thesis
  proof (cases "(\<exists>e. r = Inl e) \<or> (\<exists>hl. r = Inr hl \<and>
           ((\<exists>x \<in> set hl. url_protocol h (url x) = None) \<or> filter (allowed h) hl = []))")
    case True
    with Pair have "calls (reopenTabs h t target) = q"
      by (rule reopenTabs_stops)
    with i q show ?thesis
      by (simp add: filter_create_q)
  next
    case False
    then obtain hl where r: "r = Inr hl"
      and parse: "\<forall>x \<in> set hl. url_protocol h (url x) \<noteq> None"
      and ne: "filter (allowed h) hl \<noteq> []"
      by (cases r) auto
    let ?sel = "designate_active (filter (allowed h) hl)"
    let ?creating = "map (\<lambda>x. TabsCreate (url x) target (active x)) ?sel"
    have fc: "filter is_create ?creating = ?creating"
      by (simp add: filter_id_conv)
    note main = reopenTabs_creates [OF Pair [unfolded r] parse ne, of target]
    show ?thesis
    proof (cases "promise_all (map (tabs_create h) [0 ..< length ?sel])")
      case (Inl e')
      with main q show ?thesis
        by (auto simp: Let_def)
    next
      case (Inr newTabs)
      have len: "length (filter is_create (calls (reopenTabs h t target))) = length ?sel"
        using main q Inr
        by (simp add: Let_def filter_create_q fc filter_empty_conv comp_def)
      with i have "i < length (map (tabs_create h) [0 ..< length ?sel])"
        by simp
      moreover from i len rej have "map (tabs_create h) [0 ..< length ?sel] ! i = Inl e"
        by simp
      ultimately obtain e' where "promise_all (map (tabs_create h) [0 ..< length ?sel]) = Inl e'"
        using promise_all_rejected by blast
      with Inr show ?thesis by simp
    qed
  qed
qed


theorem reopenTabs_failed_creation_witness:
  "reopenTabs (example_host [tab_A, tab_B, tab_D] created_second_fails) tab_A 11 =
     \<lparr>calls = [TabsQuery 10, TabsCreate ''https://a.example/'' 11 True,
               TabsCreate ''https://b.example/'' 11 False],
      started = [], failure = Some Rejected\<rparr>
   \<and> created_second_fails 1 = Inl Rejected
   \<and> filter is_remove (calls (reopenTabs (example_host [tab_A, tab_B, tab_D] created_second_fails)
          tab_A 11)) = []"
proof -
  let ?h = "example_host [tab_A, tab_B, tab_D] created_second_fails"
  have run: "reopenTabs ?h tab_A 11 =
     \<lparr>calls = [TabsQuery 10, TabsCreate ''https://a.example/'' 11 True,
               TabsCreate ''https://b.example/'' 11 False],
      started = [], failure = Some Rejected\<rparr>"
    by (simp add: reopenTabs_def selection_def example_defs allowed_def ALLOWED_PROTOCOLS_def
        designate_active_def created_second_fails_def created_ok_def upt_rec [of 0])
  have h1: "1 < length (filter is_create (calls (reopenTabs ?h tab_A 11)))"
    by (simp add: run)
  have h2: "tabs_create ?h 1 = Inl Rejected"
    by (simp add: example_defs created_second_fails_def)
  from reopenTabs_failed_creation [OF h1 h2]
  have "filter is_remove (calls (reopenTabs ?h tab_A 11)) = []"
    by (simp add: filter_empty_conv)
  with run h2 show ?thesis
    by (simp add: example_defs)
qed

lemma selection_removes: "selection h t = (q, r) \<Longrightarrow> \<forall>c \<in> set q. removed_by c = {}"
  by (auto simp: selection_def split: if_splits)

lemma allowed_iff:
  "allowed h x \<longleftrightarrow> url_protocol h (url x) \<in> {Some ''http:'', Some ''https:'', Some ''ftp:''}"
  by (auto simp: allowed_def ALLOWED_PROTOCOLS_def split: option.splits)

lemma designate_active_cases:
  "designate_active xs =
     (if find active xs = None \<and> xs \<noteq> [] then (hd xs)\<lparr>active := True\<rparr> # tl xs else xs)"
  by (auto simp: designate_active_def split: option.splits list.splits)

text \<open>
  C5, as the code has it.  The tabs that survive are those tabs of the selection whose URL
  has the protocol \<^verbatim>\<open>http:\<close>, \<^verbatim>\<open>https:\<close> or \<^verbatim>\<open>ftp:\<close>.  When no tab survives, the function ends with no call after the query.  Otherwise one tab is
  created per surviving tab, in the target window, with the URL and the active flag of the
  surviving tab, the first surviving tab being made active when none of them is; and when
  all creations are fulfilled, the created tabs that are not active are highlighted and one
  call removes the surviving tabs.  No call removes a tab that the filter took out.
\<close>

theorem reopenTabs_filtering:
  fixes h t target
  defines "r \<equiv> reopenTabs h t target"
  assumes sel: "selection h t = (q, Inr hl)"
    and parse: "\<forall>x \<in> set hl. url_protocol h (url x) \<noteq> None"
    and ids: "distinct (map tab_id hl)"
  defines "surviving \<equiv>
             filter (\<lambda>x. url_protocol h (url x) \<in> {Some ''http:'', Some ''https:'', Some ''ftp:''})
               hl"
  shows "(surviving = [] \<longrightarrow> r = \<lparr>calls = q, started = [], failure = None\<rparr>)
       \<and> (surviving \<noteq> [] \<longrightarrow>
            filter is_create (calls r) =
              map (\<lambda>x. TabsCreate (url x) target (active x)) (designate_active surviving))
       \<and> designate_active surviving =
            (if find active surviving = None \<and> surviving \<noteq> []
             then (hd surviving)\<lparr>active := True\<rparr> # tl surviving else surviving)
       \<and> (surviving \<noteq> [] \<and>
            promise_all (map (tabs_create h) [0 ..< length surviving]) = Inr newTabs \<longrightarrow>
            calls r =
              q @ map (\<lambda>x. TabsCreate (url x) target (active x)) (designate_active surviving)
                @ map (\<lambda>x. TabsHighlight (tab_id x)) (filter (\<lambda>x. \<not> active x) newTabs)
                @ [TabsRemove (map tab_id surviving)]
            \<and> failure r = None)
       \<and> (\<forall>x \<in> set hl.
            url_protocol h (url x) \<notin> {Some ''http:'', Some ''https:'', Some ''ftp:''} \<longrightarrow>
            (\<forall>c \<in> set (calls r). tab_id x \<notin> removed_by c))"
proof -
  note q = selection_calls [OF sel] selection_removes [OF sel]
  have sv: "surviving = filter (allowed h) hl"
    unfolding surviving_def
    by (rule filter_cong) (auto simp: allowed_def ALLOWED_PROTOCOLS_def split: option.splits)
  let ?creating = "map (\<lambda>x. TabsCreate (url x) target (active x)) (designate_active surviving)"
  have fc: "filter is_create ?creating = ?creating"
    by (simp add: filter_id_conv)
  have a: "r = \<lparr>calls = q, started = [], failure = None\<rparr>" if "surviving = []"
    using sel parse that by (simp add: r_def sv reopenTabs_def)
  have main: "r =
     (case promise_all (map (tabs_create h) [0 ..< length surviving]) of
           Inl e \<Rightarrow> \<lparr>calls = q @ ?creating, started = [], failure = Some e\<rparr>
         | Inr newTabs \<Rightarrow>
             \<lparr>calls = q @ ?creating
                @ map (\<lambda>x. TabsHighlight (tab_id x)) (filter (\<lambda>x. \<not> active x) newTabs)
                @ [TabsRemove (map tab_id surviving)],
              started = [], failure = None\<rparr>)" if "surviving \<noteq> []"
    using reopenTabs_creates [OF sel parse, of target] that
    by (simp add: r_def sv Let_def split: sum.splits)
  have b: "filter is_create (calls r) = ?creating" if "surviving \<noteq> []"
    using main [OF that] q(1)
    by (cases "promise_all (map (tabs_create h) [0 ..< length surviving])")
      (simp_all add: filter_create_q fc filter_empty_conv comp_def)
  have c: "designate_active surviving =
            (if find active surviving = None \<and> surviving \<noteq> []
             then (hd surviving)\<lparr>active := True\<rparr> # tl surviving else surviving)"
    by (rule designate_active_cases)
  have d: "calls r = q @ ?creating
                @ map (\<lambda>x. TabsHighlight (tab_id x)) (filter (\<lambda>x. \<not> active x) newTabs)
                @ [TabsRemove (map tab_id surviving)] \<and> failure r = None"
    if "surviving \<noteq> []" "promise_all (map (tabs_create h) [0 ..< length surviving]) = Inr newTabs"
    using main [OF that(1)] that(2) by simp
  have e: "tab_id x \<notin> removed_by c"
    if x: "x \<in> set hl" "url_protocol h (url x) \<notin> {Some ''http:'', Some ''https:'', Some ''ftp:''}"
      and c: "c \<in> set (calls r)" for x c
  proof
    assume m: "tab_id x \<in> removed_by c"
    have "surviving \<noteq> []"
    proof
      assume "surviving = []"
      with a c q(2) m show False by auto
    qed
    from main [OF this] c m q(2) have "tab_id x \<in> set (map tab_id surviving)"
      by (cases "promise_all (map (tabs_create h) [0 ..< length surviving])") auto
    then obtain y where y: "y \<in> set hl"
      "url_protocol h (url y) \<in> {Some ''http:'', Some ''https:'', Some ''ftp:''}"
      "tab_id y = tab_id x"
      by (auto simp: surviving_def)
    with ids x(1) have "y = x"
      by (auto simp: distinct_map dest: inj_onD)
    with y x show False by simp
  qed
  from a have A: "surviving = [] \<longrightarrow> r = \<lparr>calls = q, started = [], failure = None\<rparr>"
    by (rule impI)
  from b have B: "surviving \<noteq> [] \<longrightarrow> filter is_create (calls r) = ?creating"
    by (rule impI)
  from d have D: "surviving \<noteq> [] \<and>
            promise_all (map (tabs_create h) [0 ..< length surviving]) = Inr newTabs \<longrightarrow>
            calls r = q @ ?creating
                @ map (\<lambda>x. TabsHighlight (tab_id x)) (filter (\<lambda>x. \<not> active x) newTabs)
                @ [TabsRemove (map tab_id surviving)]
            \<and> failure r = None"
    by (intro impI) (elim conjE)
  from e have E: "\<forall>x \<in> set hl.
            url_protocol h (url x) \<notin> {Some ''http:'', Some ''https:'', Some ''ftp:''} \<longrightarrow>
            (\<forall>c \<in> set (calls r). tab_id x \<notin> removed_by c)"
    by (intro ballI impI)
  show ?thesis
    by (intro conjI) (fact A, fact B, fact c, fact D, fact E)
qed

theorem reopenTabs_filtering_witness:
  "calls (reopenTabs
      (example_host [tab_config, tab_web, tab_http, tab_file, tab_ftp] created_ok) tab_web 11) =
     [TabsQuery 10, TabsCreate ''https://a.example/'' 11 True,
      TabsCreate ''http://c.example/'' 11 False, TabsCreate ''ftp://d.example/pub'' 11 False,
      TabsHighlight 31, TabsHighlight 32, TabsRemove [1, 4, 5]]
   \<and> tab_id tab_config \<notin> \<Union> (removed_by ` set (calls (reopenTabs
          (example_host [tab_config, tab_web, tab_http, tab_file, tab_ftp] created_ok)
          tab_web 11)))
   \<and> tab_id tab_file \<notin> \<Union> (removed_by ` set (calls (reopenTabs
          (example_host [tab_config, tab_web, tab_http, tab_file, tab_ftp] created_ok)
          tab_web 11)))"
proof -
  let ?sel = "[tab_config, tab_web, tab_http, tab_file, tab_ftp]"
  let ?h = "example_host ?sel created_ok"
  note tabs = example_defs tab_config_def tab_web_def tab_http_def tab_ftp_def tab_file_def
  have h1: "selection ?h tab_web = ([TabsQuery 10], Inr ?sel)"
    by (simp add: selection_def tabs)
  have h2: "\<forall>x \<in> set ?sel. url_protocol ?h (url x) \<noteq> None"
    by (simp add: tabs)
  have h3: "distinct (map tab_id ?sel)"
    by (simp add: tabs)
  have n: "url_protocol ?h (url tab_config) \<notin> {Some ''http:'', Some ''https:'', Some ''ftp:''}"
    "url_protocol ?h (url tab_file) \<notin> {Some ''http:'', Some ''https:'', Some ''ftp:''}"
    "tab_config \<in> set ?sel" "tab_file \<in> set ?sel"
    by code_simp+
  have run: "calls (reopenTabs ?h tab_web 11) =
     [TabsQuery 10, TabsCreate ''https://a.example/'' 11 True,
      TabsCreate ''http://c.example/'' 11 False, TabsCreate ''ftp://d.example/pub'' 11 False,
      TabsHighlight 31, TabsHighlight 32, TabsRemove [1, 4, 5]]"
    by code_simp
  note inst = reopenTabs_filtering [OF h1 h2 h3, where target = 11 and newTabs = "[]"]
  from inst n(1,3) have b: "tab_id tab_config \<notin> \<Union> (removed_by ` set (calls (reopenTabs ?h tab_web 11)))"
    by blast
  have "tab_id tab_file = 6"
    by (simp add: tab_file_def example_tab_def)
  with run have c: "tab_id tab_file \<notin> \<Union> (removed_by ` set (calls (reopenTabs ?h tab_web 11)))"
    by simp
  from run b c show ?thesis by (intro conjI)
qed

text \<open>
  Three highlighted tabs, of which the active one shows a privileged page: two tabs are created
  and the removal names the two web tabs only; the privileged tab \<open>3\<close> stays.
\<close>

theorem reopenTabs_removes_all_counterexample:
  "reopenTabs (example_host [tab_config, tab_web, tab_B] created_ok) tab_B 11 =
     \<lparr>calls = [TabsQuery 10, TabsCreate ''https://a.example/'' 11 True,
               TabsCreate ''https://b.example/'' 11 False, TabsHighlight 31,
               TabsRemove [1, 2]],
      started = [], failure = None\<rparr>
   \<and> map tab_id [tab_config, tab_web, tab_B] = [3, 1, 2]
   \<and> 3 \<notin> \<Union> (removed_by ` set (calls
         (reopenTabs (example_host [tab_config, tab_web, tab_B] created_ok) tab_B 11)))"
  by (simp add: reopenTabs_def selection_def example_defs tab_config_def tab_web_def allowed_def
      ALLOWED_PROTOCOLS_def designate_active_def created_ok_def upt_rec [of 0])

section \<open>Properties of the dispatch and of the sort command\<close>

lemma js_index_rev_1: "js_index (rev s) 1 = second_to_last s"
proof (cases "2 \<le> length s")
  case True
  then have "rev s ! 1 = s ! (length s - 2)"
    by (simp add: rev_nth Suc_diff_Suc numeral_2_eq_2)
  with True show ?thesis
    by (simp add: js_index_def second_to_last_def)
next
  case False
  then show ?thesis
    by (auto simp: js_index_def second_to_last_def)
qed

lemma click_loop_calls:
  "snd (click_loop t info law ws s) =
     (case find (\<lambda>w. win_id w \<noteq> windowId t) ws of
        None \<Rightarrow> []
      | Some w \<Rightarrow>
          [MoveTabs t (if js_positive law then law else Some (win_id w))
             (''Shift'' \<in> set (modifiers info) \<or> button info = 1)])"
  by (induction ws arbitrary: s) auto

text \<open>
  C9, as the code has it.  A click with exactly one normal window calls \<^verbatim>\<open>moveTabs\<close>
  with the target \<^verbatim>\<open>null\<close> (a new window) and the switch not forced.  Any other click
  calls it once for the first window in the enumeration that is not the window of the tab, if
  there is one: the target is the entry before the last of the recency set when that entry is
  positive and the id of that first other window otherwise, and the switch is forced when
  \<^verbatim>\<open>Shift\<close> is held or the button is the middle one.  The command \<^verbatim>\<open>move-tabs\<close>
  calls it only when there is a current tab and the entry before the last is positive, with
  that entry as target and the switch not forced.
\<close>

theorem dispatch_target:
  "(length targetWindows = 1 \<longrightarrow>
      snd (onClicked t info targetWindows s) = [MoveTabs t None False])
   \<and> (length targetWindows \<noteq> 1 \<longrightarrow>
      snd (onClicked t info targetWindows s) =
        (case find (\<lambda>w. win_id w \<noteq> windowId t) targetWindows of
           None \<Rightarrow> []
         | Some w \<Rightarrow>
             [MoveTabs t
                (if js_positive (second_to_last s) then second_to_last s else Some (win_id w))
                (''Shift'' \<in> set (modifiers info) \<or> button info = 1)]))
   \<and> onCommand_move_tabs current s =
        (if current \<noteq> [] \<and> js_positive (second_to_last s)
         then [MoveTabs (hd current) (second_to_last s) False] else [])"
  by (auto simp: onClicked_def onCommand_move_tabs_def click_loop_calls js_index_rev_1 Let_def
      split: list.splits)

theorem dispatch_target_witness:
  "snd (onClicked tab_A \<lparr>button = 1, modifiers = []\<rparr>
          [example_window 10 False [tab_A, tab_B], example_window 11 False []] [11, 10]) =
     [MoveTabs tab_A (Some 11) True]
   \<and> snd (onClicked tab_A \<lparr>button = 0, modifiers = [''Shift'']\<rparr>
          [example_window 10 False [tab_A, tab_B], example_window 12 False []] [10]) =
     [MoveTabs tab_A (Some 12) True]
   \<and> snd (onClicked tab_A \<lparr>button = 0, modifiers = []\<rparr> [example_window 10 False [tab_A]] [10]) =
     [MoveTabs tab_A None False]
   \<and> onCommand_move_tabs [tab_A] [11, 10] = [MoveTabs tab_A (Some 11) False]"
  using
    dispatch_target [of "[example_window 10 False [tab_A, tab_B], example_window 11 False []]"
      tab_A "\<lparr>button = 1, modifiers = []\<rparr>" "[11, 10]" "[tab_A]"]
    dispatch_target [of "[example_window 10 False [tab_A, tab_B], example_window 12 False []]"
      tab_A "\<lparr>button = 0, modifiers = [''Shift'']\<rparr>" "[10]" "[]"]
    dispatch_target [of "[example_window 10 False [tab_A]]"
      tab_A "\<lparr>button = 0, modifiers = []\<rparr>" "[10]" "[]"]
  by (simp add: second_to_last_def js_positive_def example_window_def example_defs)

text \<open>
  One normal window, a recency set whose entry before the last is the positive id \<open>20\<close>,
  and \<^verbatim>\<open>Shift\<close> held with the middle button: the target is \<^verbatim>\<open>null\<close> and the switch
  is not forced.  The command with a recency set of one entry moves nothing.
\<close>

theorem dispatch_target_counterexample:
  "onClicked tab_A \<lparr>button = 1, modifiers = [''Shift'']\<rparr> [example_window 10 False [tab_A]]
     [20, 10] = ([20, 10], [MoveTabs tab_A None False])
   \<and> second_to_last [20, 10 :: int] = Some 20
   \<and> onCommand_move_tabs [tab_A] [10] = []"
  by (simp add: onClicked_def onCommand_move_tabs_def second_to_last_def js_index_def
      js_positive_def)

text \<open>
  C10.  With at most two highlighted tabs no call is issued.  With more, one call moves the
  highlighted tabs, in the order of a stable sort by lower-case title (a permutation of the
  tabs, ascending in the lexicographic order of the lower-case titles, tabs of equal lower-case
  title in their previous order), to the index that the first tab of the sorted order had
  when the tabs were queried.
\<close>

theorem sortSelectedTabs_sorted:
  "(length tabs \<le> 2 \<longrightarrow> sortSelectedTabs lower tabs = [])
   \<and> (2 < length tabs \<longrightarrow>
        (\<exists>sorted_tabs.
           sortSelectedTabs lower tabs =
             [TabsMove (map tab_id sorted_tabs) None (tab_index (hd sorted_tabs))]
         \<and> mset sorted_tabs = mset tabs
         \<and> sorted (map (\<lambda>x. lower (title x)) sorted_tabs)
         \<and> (\<forall>k. filter (\<lambda>x. lower (title x) = k) sorted_tabs =
                  filter (\<lambda>x. lower (title x) = k) tabs)
         \<and> (\<forall>x \<in> set tabs. lower (title (hd sorted_tabs)) \<le> lower (title x))))"
proof -
  let ?s = "sort_key (\<lambda>x. lower (title x)) tabs"
  have short: "length tabs \<le> 2 \<longrightarrow> sortSelectedTabs lower tabs = []"
    by (simp add: sortSelectedTabs_def)
  have long: "\<exists>sorted_tabs.
           sortSelectedTabs lower tabs =
             [TabsMove (map tab_id sorted_tabs) None (tab_index (hd sorted_tabs))]
         \<and> mset sorted_tabs = mset tabs
         \<and> sorted (map (\<lambda>x. lower (title x)) sorted_tabs)
         \<and> (\<forall>k. filter (\<lambda>x. lower (title x) = k) sorted_tabs =
                  filter (\<lambda>x. lower (title x) = k) tabs)
         \<and> (\<forall>x \<in> set tabs. lower (title (hd sorted_tabs)) \<le> lower (title x))"
    if "2 < length tabs"
  proof (intro exI [of _ ?s] conjI)
    from that have ne: "?s \<noteq> []"
      by (metis length_sort list.size(3) not_less_zero)
    then obtain a as where s: "?s = a # as"
      by (cases ?s) auto
    with that show "sortSelectedTabs lower tabs = [TabsMove (map tab_id ?s) None (tab_index (hd ?s))]"
      by (simp add: sortSelectedTabs_def)
    show "mset ?s = mset tabs" by simp
    show srt: "sorted (map (\<lambda>x. lower (title x)) ?s)" by (rule sorted_sort_key)
    show "\<forall>k. filter (\<lambda>x. lower (title x) = k) ?s = filter (\<lambda>x. lower (title x) = k) tabs"
      by (simp add: sort_key_stable)
    show "\<forall>x \<in> set tabs. lower (title (hd ?s)) \<le> lower (title x)"
    proof
      fix x assume "x \<in> set tabs"
      then have "x \<in> set ?s" by simp
      with srt s show "lower (title (hd ?s)) \<le> lower (title x)"
        by auto
    qed
  qed
  from short long show ?thesis by blast
qed

theorem sortSelectedTabs_sorted_witness:
  "sortSelectedTabs ascii_lower [tab_A, tab_B] = []
   \<and> 2 < length [tab_B, tab_D, tab_A]
   \<and> sortSelectedTabs ascii_lower [tab_B, tab_D, tab_A] = [TabsMove [1, 2, 3] None 0]
   \<and> sortSelectedTabs id [tab_B, tab_D, tab_A] = [TabsMove [1, 3, 2] None 0]"
proof -
  have a: "sortSelectedTabs ascii_lower [tab_B, tab_D, tab_A] = [TabsMove [1, 2, 3] None 0]"
    by code_simp
  have b: "sortSelectedTabs id [tab_B, tab_D, tab_A] = [TabsMove [1, 3, 2] None 0]"
    by code_simp
  from sortSelectedTabs_sorted [of "[tab_A, tab_B]" ascii_lower]
    sortSelectedTabs_sorted [of "[tab_B, tab_D, tab_A]" ascii_lower] a b
  show ?thesis by simp
qed

section \<open>Properties of the menu sessions\<close>

lemma menu_run_snoc: "menu_run sess (evs @ [e]) w = menu_step sess e (menu_run sess evs w)"
  by (simp add: menu_run_def)

lemma menu_run_append: "menu_run sess (xs @ ys) w = menu_run sess ys (menu_run sess xs w)"
  by (simp add: menu_run_def)

lemma menu_run_Cons: "menu_run sess (e # evs) w = menu_run sess evs (menu_step sess e w)"
  by (simp add: menu_run_def)

lemma menu_run_Nil: "menu_run sess [] w = w"
  by (simp add: menu_run_def)

lemma settle_next:
  "nextMenuInstanceId (fst (onMenuShown_settle tok cr up st)) = nextMenuInstanceId st"
  by (simp add: onMenuShown_settle_def split: sum.splits)

lemma step_counter:
  "nextMenuInstanceId (ext w) \<le> nextMenuInstanceId (ext (menu_step sess e w))"
proof (cases e)
  case (Settled n)
  obtain st cs err where r:
    "onMenuShown_settle (token w n) (creating (sess n)) (updating (sess n)) (ext w) = (st, cs, err)"
    by (cases "onMenuShown_settle (token w n) (creating (sess n)) (updating (sess n)) (ext w)")
  with settle_next [of "token w n" "creating (sess n)" "updating (sess n)" "ext w"]
  show ?thesis
    by (simp add: Settled)
qed (simp_all add: onMenuShown_begin_def onMenuHidden_def)

lemma step_token: "e \<noteq> Shown n \<Longrightarrow> token (menu_step sess e w) n = token w n"
  by (cases e) (simp_all add: onMenuShown_begin_def onMenuHidden_def split: prod.splits)

lemma step_issues:
  "token (menu_step sess (Shown n) w) n < nextMenuInstanceId (ext (menu_step sess (Shown n) w))"
  by (simp add: onMenuShown_begin_def)

lemma token_issued:
  "Shown n \<in> set pre \<Longrightarrow>
   token (menu_run sess pre w) n < nextMenuInstanceId (ext (menu_run sess pre w))"
proof (induction pre rule: rev_induct)
  case Nil
  then show ?case by simp
next
  case (snoc e pre)
  show ?case
  proof (cases "e = Shown n")
    case True
    then show ?thesis
      by (simp only: menu_run_snoc step_issues)
  next
    case False
    with snoc have "token (menu_run sess pre w) n < nextMenuInstanceId (ext (menu_run sess pre w))"
      by simp
    with False step_counter [of "menu_run sess pre w" sess e] show ?thesis
      by (simp add: menu_run_snoc step_token)
  qed
qed

lemma settle_fulfilled:
  assumes "all_fulfilled s"
  shows "onMenuShown_settle tok (creating s) (updating s) st =
           (if tok \<noteq> lastMenuInstanceId st
            then (st, map MenusRemove (fulfilled (creating s)), None)
            else (st\<lparr>windowMenuIds := fulfilled (creating s)\<rparr>, [MenusRefresh], None))"
proof -
  let ?ids = "fulfilled (creating s)"
  from assms have c: "creating s = map Inr ?ids" and u: "updating s = [Inr (), Inr ()]"
    by (simp_all add: all_fulfilled_def)
  have "map (map_sum id (\<lambda>x. ())) (map Inr ?ids) @ [Inr (), Inr ()] =
        map Inr (map (\<lambda>x. ()) ?ids @ [(), ()])"
    by simp
  then have p1: "promise_all (map (map_sum id (\<lambda>x. ())) (creating s) @ updating s) =
        Inr (map (\<lambda>x. ()) ?ids @ [(), ()])"
    using c u promise_all_map_Inr by metis
  have p2: "promise_all (creating s) = Inr ?ids"
    using c promise_all_map_Inr by metis
  show ?thesis
    by (simp add: onMenuShown_settle_def p1 p2)
qed

lemma host_menu_removes:
  "fold host_menu (map MenusRemove ids) es = filter (\<lambda>e. e \<notin> set ids) es"
proof (induction ids arbitrary: es)
  case Nil
  then show ?case by simp
next
  case (Cons i ids)
  then show ?case
    by (simp add: removeAll_filter_not_eq conj_commute) (metis)
qed

lemma settled_step:
  assumes "all_fulfilled (sess k)"
  shows "menu_step sess (Settled k) w =
           (if token w k \<noteq> lastMenuInstanceId (ext w)
            then w\<lparr>entries := filter (\<lambda>e. e \<notin> set (fulfilled (creating (sess k)))) (entries w)\<rparr>
            else w\<lparr>ext := (ext w)\<lparr>windowMenuIds := fulfilled (creating (sess k))\<rparr>\<rparr>)"
  by (simp add: settle_fulfilled [OF assms] host_menu_removes)

lemma shown_step:
  "menu_step sess (Shown k) w =
     w\<lparr>ext := (ext w)\<lparr>nextMenuInstanceId := nextMenuInstanceId (ext w) + 1,
                      lastMenuInstanceId := nextMenuInstanceId (ext w)\<rparr>,
       token := (token w)(k := nextMenuInstanceId (ext w))\<rparr>"
  by (simp add: onMenuShown_begin_def)

lemma current_not_shown:
  assumes "token w m < nextMenuInstanceId (ext w)" "m \<noteq> n"
  shows "current_not (menu_step sess (Shown n) w) n m"
    and "entries (menu_step sess (Shown n) w) = entries w"
  using assms by (simp_all add: shown_step current_not_def del: menu_step.simps)

lemma built_step:
  "menu_step sess (Built k) w = w\<lparr>entries := entries w @ fulfilled (creating (sess k))\<rparr>"
  by simp

lemma settled_stale:
  "all_fulfilled (sess m) \<Longrightarrow> current_not w n m \<Longrightarrow>
   menu_step sess (Settled m) w =
     w\<lparr>entries := filter (\<lambda>e. e \<notin> set (fulfilled (creating (sess m)))) (entries w)\<rparr>"
  by (simp add: settled_step current_not_def del: menu_step.simps)

lemma settled_current:
  "all_fulfilled (sess n) \<Longrightarrow> current_not w n m \<Longrightarrow>
   menu_step sess (Settled n) w = w\<lparr>ext := (ext w)\<lparr>windowMenuIds := fulfilled (creating (sess n))\<rparr>\<rparr>"
  by (simp add: settled_step current_not_def del: menu_step.simps)

lemma overlapping_rest:
  assumes cur: "current_not w n m"
    and rest: "rest \<in> shuffles r1 [Built n, Settled n]"
    and r1: "r1 = [Built m, Settled m] \<or> r1 = [Settled m]"
    and ok: "all_fulfilled (sess m)" "all_fulfilled (sess n)"
    and fresh: "set (fulfilled (creating (sess m))) \<inter> set (fulfilled (creating (sess n))) = {}"
  shows "set (entries (menu_run sess rest w)) =
           set (entries w) - set (fulfilled (creating (sess m)))
             \<union> set (fulfilled (creating (sess n)))
       \<and> windowMenuIds (ext (menu_run sess rest w)) = fulfilled (creating (sess n))"
proof -
  note steps = menu_run_Cons menu_run_Nil built_step
    settled_stale [where sess = sess and m = m and n = n, OF ok(1)]
    settled_current [where sess = sess and n = n and m = m, OF ok(2)]
    current_not_def cur [unfolded current_not_def]
  have s2: "shuffles [Built m, Settled m] [Built n, Settled n] =
      {[Built m, Settled m, Built n, Settled n], [Built m, Built n, Settled m, Settled n],
       [Built m, Built n, Settled n, Settled m], [Built n, Built m, Settled m, Settled n],
       [Built n, Built m, Settled n, Settled m], [Built n, Settled n, Built m, Settled m]}"
    by (simp add: insert_commute)
  have s1: "shuffles [Settled m] [Built n, Settled n] =
      {[Settled m, Built n, Settled n], [Built n, Settled m, Settled n],
       [Built n, Settled n, Settled m]}"
    by (simp add: insert_commute)
  from r1 rest consider
      "rest = [Built m, Settled m, Built n, Settled n]"
    | "rest = [Built m, Built n, Settled m, Settled n]"
    | "rest = [Built m, Built n, Settled n, Settled m]"
    | "rest = [Built n, Built m, Settled m, Settled n]"
    | "rest = [Built n, Built m, Settled n, Settled m]"
    | "rest = [Built n, Settled n, Built m, Settled m]"
    | "rest = [Settled m, Built n, Settled n]"
    | "rest = [Built n, Settled m, Settled n]"
    | "rest = [Built n, Settled n, Settled m]"
    unfolding insert_iff empty_iff
    by (elim disjE) (simp_all only: s1 s2 insert_iff empty_iff, blast+)
  then show ?thesis
  proof cases
    case 1
    then show ?thesis
      using fresh by (simp add: steps del: menu_step.simps) auto
  next
    case 2
    then show ?thesis
      using fresh by (simp add: steps del: menu_step.simps) auto
  next
    case 3
    then show ?thesis
      using fresh by (simp add: steps del: menu_step.simps) auto
  next
    case 4
    then show ?thesis
      using fresh by (simp add: steps del: menu_step.simps) auto
  next
    case 5
    then show ?thesis
      using fresh by (simp add: steps del: menu_step.simps) auto
  next
    case 6
    then show ?thesis
      using fresh by (simp add: steps del: menu_step.simps) auto
  next
    case 7
    then show ?thesis
      using fresh by (simp add: steps del: menu_step.simps) auto
  next
    case 8
    then show ?thesis
      using fresh by (simp add: steps del: menu_step.simps) auto
  next
    case 9
    then show ?thesis
      using fresh by (simp add: steps del: menu_step.simps) auto
  qed
qed

text \<open>
  C2, as the code has it.  Session \<open>m\<close> was shown at some point of an arbitrary history, then
  session \<open>n\<close> is shown, and afterwards the creations of \<open>n\<close> are carried out and both
  sessions settle, in any order (the creations of \<open>m\<close> are carried out before or after
  \<open>n\<close> is shown).  When the host fulfils all promises of both sessions and does not issue
  an id twice, the entries in the end are those that existed when \<open>n\<close> was shown, without
  the entries of \<open>m\<close> and with the entries of \<open>n\<close>, and the registered ids are those
  of \<open>n\<close>.
\<close>

theorem overlapping_sessions:
  assumes shown1: "Shown m \<in> set pre"
    and rest: "rest \<in> shuffles r1 [Built n, Settled n]"
    and r1: "r1 = [Built m, Settled m] \<or> r1 = [Settled m]"
    and ok: "all_fulfilled (sess m)" "all_fulfilled (sess n)"
    and fresh: "set (fulfilled (creating (sess m))) \<inter> set (fulfilled (creating (sess n))) = {}"
    and mn: "m \<noteq> n"
  shows "set (entries (menu_run sess (pre @ Shown n # rest) w)) =
           set (entries (menu_run sess pre w)) - set (fulfilled (creating (sess m)))
             \<union> set (fulfilled (creating (sess n)))
       \<and> windowMenuIds (ext (menu_run sess (pre @ Shown n # rest) w)) =
           fulfilled (creating (sess n))"
proof -
  let ?w = "menu_run sess pre w"
  have tok: "token ?w m < nextMenuInstanceId (ext ?w)"
    using shown1 by (rule token_issued)
  note cur = current_not_shown [OF tok mn, of sess]
  have "menu_run sess (pre @ Shown n # rest) w = menu_run sess rest (menu_step sess (Shown n) ?w)"
    by (simp only: menu_run_append menu_run_Cons)
  with overlapping_rest [OF cur(1) rest r1 ok fresh] cur(2) show ?thesis
    by simp
qed

theorem overlapping_sessions_witness:
  "entries (menu_run (example_sessions (\<lambda>i. Inr (100 + int i)))
      ([Shown 1, Built 1] @ Shown 2 # [Built 2, Settled 1, Settled 2]) example_world) = [200, 201]
   \<and> windowMenuIds (ext (menu_run (example_sessions (\<lambda>i. Inr (100 + int i)))
      ([Shown 1, Built 1] @ Shown 2 # [Built 2, Settled 1, Settled 2]) example_world)) = [200, 201]"
proof -
  let ?sess = "example_sessions (\<lambda>i. Inr (100 + int i))"
  have c1: "fulfilled (creating (?sess 1)) = [100, 101]"
    by code_simp
  have c2: "fulfilled (creating (?sess 2)) = [200, 201]"
    by code_simp
  have h1: "Shown 1 \<in> set [Shown 1, Built 1]"
    by simp
  have h2: "[Built 2, Settled 1, Settled 2] \<in> shuffles [Settled 1] [Built 2, Settled 2]"
    by simp
  have h3: "[Settled 1] = [Built 1, Settled 1] \<or> [Settled 1] = [Settled (1 :: nat)]"
    by simp
  have h4: "all_fulfilled (?sess 1)"
    by code_simp
  have h5: "all_fulfilled (?sess 2)"
    by code_simp
  have h6: "set (fulfilled (creating (?sess 1))) \<inter> set (fulfilled (creating (?sess 2))) = {}"
    by (simp only: c1 c2) simp
  have h7: "(1 :: nat) \<noteq> 2"
    by simp
  have e: "entries (menu_run ?sess ([Shown 1, Built 1] @ Shown 2 # [Built 2, Settled 1, Settled 2])
      example_world) = [200, 201]"
    by code_simp
  from overlapping_sessions [OF h1 h2 h3 h4 h5 h6 h7, of example_world]
  have "windowMenuIds (ext (menu_run ?sess
      ([Shown 1, Built 1] @ Shown 2 # [Built 2, Settled 1, Settled 2]) example_world)) =
      fulfilled (creating (?sess 2))"
    by (rule conjunct2)
  then have "windowMenuIds (ext (menu_run ?sess
      ([Shown 1, Built 1] @ Shown 2 # [Built 2, Settled 1, Settled 2]) example_world)) = [200, 201]"
    by (simp only: c2)
  with e show ?thesis by (rule conjI)
qed

text \<open>
  The second creation of the older session is rejected: its \<^verbatim>\<open>await\<close> throws, so it
  neither removes nor registers anything, and its first entry \<open>100\<close> stays in the menu
  beside the entries of the newer session.
\<close>

theorem overlapping_sessions_counterexample:
  "entries (menu_run (example_sessions (\<lambda>i. if i = 1 then Inl Rejected else Inr (100 + int i)))
      [Shown 1, Built 1, Shown 2, Built 2, Settled 1, Settled 2] example_world) = [100, 200, 201]
   \<and> fulfilled (creating (example_sessions
        (\<lambda>i. if i = 1 then Inl Rejected else Inr (100 + int i)) 1)) = [100]
   \<and> fulfilled (creating (example_sessions
        (\<lambda>i. if i = 1 then Inl Rejected else Inr (100 + int i)) 2)) = [200, 201]"
  by code_simp

subsection \<open>The entries that a session requests\<close>

lemma menu_loop_acc:
  "menu_loop t ws (cs, a, b) =
     (cs @ map (entry_for t) (filter (\<lambda>w. win_id w \<noteq> windowId t) ws),
      a + length (filter (\<lambda>w. win_id w \<noteq> windowId t \<and> incognito t = win_incognito w) ws),
      b + length (filter (\<lambda>w. win_id w \<noteq> windowId t \<and> incognito t \<noteq> win_incognito w) ws))"
  by (induction ws arbitrary: cs a b) (auto simp: entry_for_def)

text \<open>
  The requests of a session: one creation for every window other than the window of the tab,
  in enumeration order, under \<^verbatim>\<open>move-menu\<close> with the handler for a move when the privacy
  modes are equal and under \<^verbatim>\<open>reopen-menu\<close> with the handler for a reopen otherwise, and
  one update for each of the two parent ids that enables it when it has an entry.
\<close>

lemma onMenuShown_build_requests:
  "onMenuShown_build t ws =
     map (\<lambda>w. MenusCreate (entry_for t w)) (filter (\<lambda>w. win_id w \<noteq> windowId t) ws) @
     [MenusUpdate ''move-menu''
        (\<exists>w \<in> set ws. win_id w \<noteq> windowId t \<and> incognito t = win_incognito w),
      MenusUpdate ''reopen-menu''
        (\<exists>w \<in> set ws. win_id w \<noteq> windowId t \<and> incognito t \<noteq> win_incognito w)]"
  by (auto simp: onMenuShown_build_def menu_loop_acc length_greater_0_conv filter_empty_conv
      simp del: length_0_conv)

text \<open>
  C3 on the code.  A tab of the window \<open>10\<close>, a window \<open>11\<close> of the same privacy mode and a
  private window \<open>12\<close>: the session requests an entry under the parent \<^verbatim>\<open>reopen-menu\<close>
  and an update that enables \<^verbatim>\<open>reopen-menu\<close>, while the only parent that the start-up
  function creates is \<^verbatim>\<open>move-menu\<close>.
\<close>

theorem reopen_parent_not_created:
  "onMenuShown_build tab_A
     [example_window 10 False [tab_A], example_window 11 False [], example_window 12 True []] =
     [MenusCreate \<lparr>onclick = MoveTabsTo 11, parentId = ''move-menu'', item_title = []\<rparr>,
      MenusCreate \<lparr>onclick = ReopenTabsTo 12, parentId = ''reopen-menu'', item_title = []\<rparr>,
      MenusUpdate ''move-menu'' True, MenusUpdate ''reopen-menu'' True]
   \<and> map fst startup_menus = [''move-menu'']"
  by (simp add: onMenuShown_build_def startup_menus_def example_window_def example_defs)

end
